theory Spec2Isabelle
  imports Main
begin

section \<open>The line editor of src/io.js\<close>

text \<open>
  The class \<open>IO\<close> of \<open>src/io.js\<close> is embedded as a state record and functions on it.
  Strings are lists of characters, numbers are integers. Everything the editor does to
  the outside (writes to stdout, cursor positioning, corking of stdin, calls of the
  caller-supplied callbacks) is appended to the field \<open>trace\<close>, in the order in which the
  source performs it.
\<close>

subsection \<open>Data\<close>

datatype effect =
    Write string          \<comment> \<open>\<open>stdout.write(text)\<close>\<close>
  | WriteGrey string      \<comment> \<open>\<open>stdout.write(chalk.grey(text))\<close>\<close>
  | ClearScreenDown       \<comment> \<open>\<open>stdout.write(CSI.kClearScreenDown)\<close>\<close>
  | CursorTo int          \<comment> \<open>\<open>cursorTo(stdout, column)\<close>\<close>
  | Cork                  \<comment> \<open>\<open>stdin.cork()\<close>\<close>
  | Uncork                \<comment> \<open>\<open>stdin.uncork()\<close>\<close>
  | OnLine string         \<comment> \<open>a call \<open>onLine(line)\<close>\<close>
  | Lookup string         \<comment> \<open>a call \<open>onAutocomplete(buffer)\<close>\<close>
  | Transform string      \<comment> \<open>a call \<open>transformBuffer(buffer)\<close>\<close>

text \<open>
  The fields \<open>this.*\<close> of an \<open>IO\<close> object, \<open>this.history.index\<close> (a property hung on the
  history array) and the variable \<open>closeOnThisOne\<close> captured by the key handler.
  \<open>completionList\<close> is \<open>None\<close> for \<open>undefined\<close>.

  Arrays of candidates are objects: \<open>this.completionList = c\<close> keeps the very array the lookup
  handed out, and \<open>shift()\<close> changes it in place, where the caller can see it and hand it
  out again. So \<open>completionList\<close> holds a reference, and \<open>arrays\<close> is the store the references
  point into: it gives the elements of every array, the caller's ones included.
\<close>

type_synonym store = "nat \<Rightarrow> string list"

record state =
  buffer :: string
  cursor :: int
  prefix :: string
  suffix :: string
  paused :: bool
  completionList :: "nat option"
  history :: "string list"
  history_index :: int
  closeOnThisOne :: bool
  trace :: "effect list"
  arrays :: store

text \<open>
  The callbacks handed to the constructor. \<open>onAutocomplete\<close> and \<open>transformBuffer\<close> may
  be missing (\<open>None\<close>). A lookup reads the buffer and the store; it answers with \<open>None\<close> for a
  falsy result or with the reference of an array, and with the store as it leaves it (it
  may have made a new array or refilled an old one). \<open>onLine\<close> and \<open>transformBuffer\<close> return
  strings and are taken to be functions of their argument. No callback touches the editor.
\<close>

record env =
  onLine :: "string \<Rightarrow> string"
  onAutocomplete :: "(string \<Rightarrow> store \<Rightarrow> nat option \<times> store) option"
  transformBuffer :: "(string \<Rightarrow> string) option"

text \<open>The key object passed to the handler: \<open>key.name\<close> (possibly undefined), \<open>key.ctrl\<close>, \<open>key.meta\<close>.\<close>

record key =
  name :: "string option"
  ctrl :: bool
  meta :: bool

text \<open>The handler returns \<open>-1\<close> (the caller then exits the process) or \<open>undefined\<close>.\<close>

datatype outcome = Exit | Continue

datatype error = TypeError

subsection \<open>String primitives\<close>

text \<open>\<open>String.prototype.slice(b, e)\<close>: negative indices count from the end, all are clamped.\<close>

definition slice :: "string \<Rightarrow> int \<Rightarrow> int \<Rightarrow> string" where
  "slice str b e =
     (let len = int (length str);
          from = (if b < 0 then max (len + b) 0 else min b len);
          to = (if e < 0 then max (len + e) 0 else min e len)
      in take (nat (to - from)) (drop (nat from) str))"

text \<open>\<open>s.split(/\r\n|\n|\r/)\<close>\<close>

fun split_lines :: "string \<Rightarrow> string list" where
  "split_lines [] = [[]]"
| "split_lines (c # cs) =
     (if c = CHR 0x0D then
        (case cs of
           [] \<Rightarrow> [] # split_lines cs
         | d # ds \<Rightarrow> if d = CHR 0x0A then [] # split_lines ds else [] # split_lines cs)
      else if c = CHR 0x0A then [] # split_lines cs
      else (case split_lines cs of
              [] \<Rightarrow> [[c]]
            | l # ls \<Rightarrow> (c # l) # ls))"

text \<open>\<open>this.history[i]\<close>, which is \<open>undefined\<close> outside the array.\<close>

definition history_at :: "string list \<Rightarrow> int \<Rightarrow> string option" where
  "history_at hs i = (if 0 \<le> i \<and> i < int (length hs) then Some (hs ! nat i) else None)"

subsection \<open>Output, pausing\<close>

definition emit :: "effect list \<Rightarrow> state \<Rightarrow> state" where
  "emit es st = st\<lparr>trace := trace st @ es\<rparr>"

definition pause :: "state \<Rightarrow> state" where
  "pause st = emit [Cork] (st\<lparr>paused := True\<rparr>)"

definition unpause :: "state \<Rightarrow> state" where
  "unpause st = (emit [Uncork] st)\<lparr>paused := False\<rparr>"

definition clear :: "state \<Rightarrow> state" where
  "clear st = emit [CursorTo 0, ClearScreenDown] st"

definition addSuffix :: "string \<Rightarrow> state \<Rightarrow> state" where
  "addSuffix s st =
     (if paused st \<or> cursor st \<noteq> int (length (buffer st)) then st
      else emit [ClearScreenDown, WriteGrey s, CursorTo (cursor st + int (length (prefix st)))]
             (st\<lparr>suffix := s\<rparr>))"

text \<open>The part of \<open>refresh\<close> between the pause check and the final call of \<open>autocomplete\<close>.\<close>

definition redraw :: "env \<Rightarrow> state \<Rightarrow> state" where
  "redraw env st =
     (let st1 = clear (st\<lparr>completionList := None, suffix := []\<rparr>) in
      case transformBuffer env of
        Some f \<Rightarrow>
          emit [Transform (buffer st1), Write (prefix st1 @ f (buffer st1)),
                CursorTo (cursor st1 + int (length (prefix st1)))] st1
      | None \<Rightarrow>
          emit [Write (prefix st1 @ buffer st1),
                CursorTo (cursor st1 + int (length (prefix st1)))] st1)"

subsection \<open>Rendering and the autocomplete cycler\<close>

function refresh :: "env \<Rightarrow> bool \<Rightarrow> state \<Rightarrow> state"
  and autocomplete :: "env \<Rightarrow> state \<Rightarrow> state" where
  "refresh env complete st =
     (if paused st then st
      else if complete \<and> buffer (redraw env st) \<noteq> [] then autocomplete env (redraw env st)
      else redraw env st)"
| "autocomplete env st =
     (case onAutocomplete env of
        None \<Rightarrow> st
      | Some lookup \<Rightarrow>
          (case completionList st of
             Some r \<Rightarrow>
               (case arrays st r of
                  next # rest \<Rightarrow> addSuffix next (st\<lparr>arrays := (arrays st)(r := rest)\<rparr>)
                | [] \<Rightarrow> refresh env False (st\<lparr>completionList := None\<rparr>))
           | None \<Rightarrow>
               (case lookup (buffer st) (arrays st) of
                  (Some c, h) \<Rightarrow>
                    autocomplete env
                      ((emit [Lookup (buffer st)] st)\<lparr>arrays := h, completionList := Some c\<rparr>)
                | (None, h) \<Rightarrow> (emit [Lookup (buffer st)] st)\<lparr>arrays := h\<rparr>)))"
  by pat_completeness auto

termination
  by (relation "measure (\<lambda>x. case x of
          Inl (env, complete, st) \<Rightarrow> (if complete then 3 else 0)
        | Inr (env, st) \<Rightarrow> (if completionList st = None then 2 else 1))")
     (auto simp: emit_def)

declare refresh.simps [simp del] autocomplete.simps [simp del]

subsection \<open>Editing\<close>

text \<open>The new buffer computed at the start of \<open>appendToBuffer\<close>.\<close>

definition splice :: "string \<Rightarrow> int \<Rightarrow> string \<Rightarrow> string" where
  "splice buf c s =
     (if c < int (length buf) then slice buf 0 c @ s @ slice buf c (int (length buf))
      else buf @ s)"

definition appendToBuffer :: "env \<Rightarrow> string \<Rightarrow> state \<Rightarrow> state" where
  "appendToBuffer env s st =
     refresh env True
       (st\<lparr>buffer := splice (buffer st) (cursor st) s, cursor := cursor st + int (length s)\<rparr>)"

definition moveCursor :: "env \<Rightarrow> int \<Rightarrow> state \<Rightarrow> state" where
  "moveCursor env n st =
     (if cursor st + n < 0 \<or> cursor st + n > int (length (buffer st)) then st
      else refresh env True (st\<lparr>cursor := cursor st + n\<rparr>))"

subsection \<open>The key handler\<close>

definition exit_warning :: string where
  "exit_warning = [CHR 0x0A] @ ''(To exit, press ^C again or call exit)'' @ [CHR 0x0A]"

text \<open>What the loop of the default case does at a line break (the branch \<open>i > 0\<close>).\<close>

definition submit :: "env \<Rightarrow> state \<Rightarrow> state" where
  "submit env st =
     (if buffer st \<noteq> [] then
        (let st1 = emit [Write [CHR 0x0A]] (pause (refresh env False st));
             b = buffer st1;
             st2 = st1\<lparr>buffer := [], cursor := 0, history := b # history st1\<rparr>;
             st3 = emit [OnLine b, Write (onLine env b @ [CHR 0x0A])] st2
         in refresh env True (unpause st3))
      else refresh env True (emit [Write [CHR 0x0A]] st))"

text \<open>The loop \<open>for (let i = 0; i < lines.length; i += 1)\<close>, on the lines from index \<open>i\<close> on.\<close>

fun lines_loop :: "env \<Rightarrow> nat \<Rightarrow> string list \<Rightarrow> state \<Rightarrow> state" where
  "lines_loop env i [] st = st"
| "lines_loop env i (l # ls) st =
     lines_loop env (i + 1) ls (appendToBuffer env l (if i > 0 then submit env st else st))"

definition key_up :: "env \<Rightarrow> state \<Rightarrow> error + outcome \<times> state" where
  "key_up env st =
     (if history_index st \<ge> int (length (history st)) - 1 then Inr (Continue, st)
      else (case history_at (history st) (history_index st + 1) of
              None \<Rightarrow> Inl TypeError
            | Some h \<Rightarrow> Inr (Continue, refresh env True
                (st\<lparr>history_index := history_index st + 1, buffer := h, cursor := int (length h)\<rparr>))))"

definition key_down :: "env \<Rightarrow> state \<Rightarrow> error + outcome \<times> state" where
  "key_down env st =
     (if history_index st \<le> 0 then
        Inr (Continue, refresh env True (st\<lparr>buffer := [], cursor := 0\<rparr>))
      else (case history_at (history st) (history_index st - 1) of
              None \<Rightarrow> Inl TypeError
            | Some h \<Rightarrow> Inr (Continue, refresh env True
                (st\<lparr>history_index := history_index st - 1, buffer := h, cursor := int (length h)\<rparr>))))"

definition key_right :: "env \<Rightarrow> state \<Rightarrow> state" where
  "key_right env st =
     (if cursor st = int (length (buffer st)) then
        (if suffix st \<noteq> [] then
           refresh env True (st\<lparr>completionList := None, buffer := buffer st @ suffix st,
                                cursor := cursor st + int (length (suffix st))\<rparr>)
         else st)
      else moveCursor env 1 st)"

definition key_backspace :: "env \<Rightarrow> state \<Rightarrow> state" where
  "key_backspace env st =
     (if cursor st = 0 then st
      else moveCursor env (- 1)
             (st\<lparr>buffer := slice (buffer st) 0 (cursor st - 1)
                              @ slice (buffer st) (cursor st) (int (length (buffer st)))\<rparr>))"

definition key_default :: "env \<Rightarrow> string \<Rightarrow> state \<Rightarrow> state" where
  "key_default env s st =
     (if s \<noteq> [] then lines_loop env 0 (split_lines s) (st\<lparr>history_index := - 1\<rparr>) else st)"

text \<open>The \<open>switch (key.name)\<close>.\<close>

definition dispatch :: "env \<Rightarrow> string \<Rightarrow> key \<Rightarrow> state \<Rightarrow> error + outcome \<times> state" where
  "dispatch env s k st =
     (if name k = Some ''up'' then key_up env st
      else if name k = Some ''down'' then key_down env st
      else if name k = Some ''left'' then Inr (Continue, moveCursor env (- 1) st)
      else if name k = Some ''right'' then Inr (Continue, key_right env st)
      else if name k = Some ''delete'' \<or> name k = Some ''backspace''
        then Inr (Continue, key_backspace env st)
      else if name k = Some ''tab'' then Inr (Continue, autocomplete env st)
      else Inr (Continue, key_default env s st))"

text \<open>The callback given to \<open>emitKeys\<close>.\<close>

definition handler :: "env \<Rightarrow> string \<Rightarrow> key \<Rightarrow> state \<Rightarrow> error + outcome \<times> state" where
  "handler env s k st =
     (if (ctrl k \<or> meta k) \<and> (name k = Some ''d'' \<or> name k = Some ''z'') then Inr (Exit, st)
      else if (ctrl k \<or> meta k) \<and> name k = Some ''c'' then
        (if closeOnThisOne st then Inr (Exit, st)
         else Inr (Continue, (emit [Write exit_warning] st)
                     \<lparr>buffer := [], cursor := 0, closeOnThisOne := True\<rparr>))
      else dispatch env s k (st\<lparr>closeOnThisOne := False\<rparr>))"

text \<open>
  The state the constructor leaves behind (it ends with \<open>this.unpause()\<close>), here with no
  array in the store.
\<close>

definition IO_new :: state where
  "IO_new = unpause \<lparr>buffer = [], cursor = 0, prefix = [], suffix = [], paused = False,
     completionList = None, history = [], history_index = - 1, closeOnThisOne = False,
     trace = [], arrays = (\<lambda>r. [])\<rparr>"

text \<open>
  The loop of \<open>handle\<close>, on the key events the decoder produces: each event is handled to
  its end before the next one, \<open>-1\<close> exits the process, an exception ends it as well.
\<close>

fun run :: "env \<Rightarrow> (string \<times> key) list \<Rightarrow> state \<Rightarrow> error + outcome \<times> state" where
  "run env [] st = Inr (Continue, st)"
| "run env ((s, k) # evs) st =
     (case handler env s k st of
        Inl e \<Rightarrow> Inl e
      | Inr (Exit, st') \<Rightarrow> Inr (Exit, st')
      | Inr (Continue, st') \<Rightarrow> run env evs st')"

text \<open>
  The states the editor can be in between two key events, whatever arrays the caller holds
  when the editor is made.
\<close>

inductive reachable :: "env \<Rightarrow> state \<Rightarrow> bool" for env :: env where
  start: "reachable env (IO_new\<lparr>arrays := h\<rparr>)"
| step: "reachable env st \<Longrightarrow> handler env s k st = Inr (Continue, st') \<Longrightarrow> reachable env st'"

text \<open>The lines handed to \<open>onLine\<close>, in call order.\<close>

fun submissions :: "effect list \<Rightarrow> string list" where
  "submissions [] = []"
| "submissions (OnLine b # es) = b # submissions es"
| "submissions (e # es) = submissions es"

subsection \<open>Predicates used in the statements\<close>

text \<open>Two states agree on everything but the suggestion, the completion queue and the terminal output.\<close>

definition same_core :: "state \<Rightarrow> state \<Rightarrow> bool" where
  "same_core a b \<longleftrightarrow> buffer a = buffer b \<and> cursor a = cursor b \<and> prefix a = prefix b \<and>
     paused a = paused b \<and> history a = history b \<and> history_index a = history_index b \<and>
     closeOnThisOne a = closeOnThisOne b \<and> submissions (trace a) = submissions (trace b)"


text \<open>
  What holds between two key events: the cursor is inside the buffer, the history index
  is \<open>-1\<close> or points into the history, and the editor is not paused.
\<close>

definition editor_inv :: "state \<Rightarrow> bool" where
  "editor_inv st \<longleftrightarrow> 0 \<le> cursor st \<and> cursor st \<le> int (length (buffer st)) \<and>
     - 1 \<le> history_index st \<and> history_index st < int (length (history st)) \<and> \<not> paused st"


text \<open>
  The suggestion that the answer of a lookup leads to: the first element of the array it
  hands out, as the store has it then; none for a falsy answer or an empty array.
\<close>

definition first_offer :: "nat option \<times> store \<Rightarrow> string" where
  "first_offer ans =
     (case ans of
        (Some r, h) \<Rightarrow> (case h r of c # cs \<Rightarrow> c | [] \<Rightarrow> [])
      | (None, h) \<Rightarrow> [])"

text \<open>
  Drawing the line writes its text directly after clearing the screen or after the call
  of \<open>transformBuffer\<close> (\<open>clear\<close> and \<open>refresh\<close>); every other write stands on its own.
  \<open>besides_drawing\<close> keeps what the editor does besides drawing: corking and uncorking,
  calls of \<open>onLine\<close>, and the writes that are not the drawn line. Its first argument says
  whether the effect before was one that a drawn line follows.
\<close>

fun marker :: "effect \<Rightarrow> bool" where
  "marker ClearScreenDown = True"
| "marker (Transform b) = True"
| "marker e = False"

fun outside :: "bool \<Rightarrow> effect \<Rightarrow> bool" where
  "outside m (Write w) = (\<not> m)"
| "outside m Cork = True"
| "outside m Uncork = True"
| "outside m (OnLine b) = True"
| "outside m e = False"

fun besides_drawing :: "bool \<Rightarrow> effect list \<Rightarrow> effect list" where
  "besides_drawing m [] = []"
| "besides_drawing m (e # es) =
     (if outside m e then e # besides_drawing (marker e) es else besides_drawing (marker e) es)"

fun ends_marked :: "bool \<Rightarrow> effect list \<Rightarrow> bool" where
  "ends_marked m [] = m"
| "ends_marked m (e # es) = ends_marked (marker e) es"

text \<open>Effects that are drawing only, and a trace that has grown by drawing only.\<close>

definition drawing :: "effect list \<Rightarrow> bool" where
  "drawing es \<longleftrightarrow> besides_drawing False es = [] \<and> \<not> ends_marked False es"

definition drawn_more :: "effect list \<Rightarrow> effect list \<Rightarrow> bool" where
  "drawn_more old new \<longleftrightarrow> take (length old) new = old \<and> drawing (drop (length old) new)"

text \<open>
  What section 4.2 of the specification says happens at a line break, the redrawing left
  out: a newline is written; if the buffer is not empty the editor is paused before it,
  and then the line is submitted, the result is written with a newline, and the editor
  is unpaused.
\<close>

definition line_break_effects :: "env \<Rightarrow> string \<Rightarrow> effect list" where
  "line_break_effects env b =
     (if b \<noteq> [] then [Cork, Write [CHR 0x0A], OnLine b, Write (onLine env b @ [CHR 0x0A]), Uncork]
      else [Write [CHR 0x0A]])"

text \<open>The keys that reach the \<open>default\<close> case of the switch.\<close>

definition unbound_key :: "key \<Rightarrow> bool" where
  "unbound_key k \<longleftrightarrow>
     \<not> ((ctrl k \<or> meta k) \<and> name k \<in> {Some ''d'', Some ''z'', Some ''c''}) \<and>
     name k \<notin> {Some ''up'', Some ''down'', Some ''left'', Some ''right'', Some ''delete'',
                Some ''backspace'', Some ''tab''}"

subsection \<open>Sample callbacks, keys and states\<close>

definition echo_env :: env where
  "echo_env = \<lparr>onLine = (\<lambda>l. l), onAutocomplete = None, transformBuffer = None\<rparr>"

text \<open>A lookup that offers \<open>["foo"]\<close> for every buffer, putting the array at address 0.\<close>

definition foo_lookup :: "string \<Rightarrow> store \<Rightarrow> nat option \<times> store" where
  "foo_lookup b h = (Some 0, h(0 := [''foo'']))"

definition foo_env :: env where
  "foo_env = \<lparr>onLine = (\<lambda>l. l), onAutocomplete = Some foo_lookup, transformBuffer = None\<rparr>"

text \<open>A lookup that offers \<open>["abc", "abd"]\<close> for the buffer \<open>ab\<close>, each time in full.\<close>

definition ab_lookup :: "string \<Rightarrow> store \<Rightarrow> nat option \<times> store" where
  "ab_lookup b h = (if b = ''ab'' then (Some 0, h(0 := [''abc'', ''abd''])) else (None, h))"

text \<open>A lookup that hands out the one array it keeps at address 0, as the editor left it.\<close>

definition stored_lookup :: "string \<Rightarrow> store \<Rightarrow> nat option \<times> store" where
  "stored_lookup b h = (Some 0, h)"

definition stored_env :: env where
  "stored_env = \<lparr>onLine = (\<lambda>l. l), onAutocomplete = Some stored_lookup,
     transformBuffer = None\<rparr>"

definition ab_env :: env where
  "ab_env = \<lparr>onLine = (\<lambda>l. l), onAutocomplete = Some ab_lookup, transformBuffer = None\<rparr>"

definition text_key :: key where
  "text_key = \<lparr>name = None, ctrl = False, meta = False\<rparr>"

definition named_key :: "string \<Rightarrow> key" where
  "named_key n = \<lparr>name = Some n, ctrl = False, meta = False\<rparr>"

definition ctrl_key :: "string \<Rightarrow> key" where
  "ctrl_key n = \<lparr>name = Some n, ctrl = True, meta = False\<rparr>"

definition sample_state :: "string \<Rightarrow> int \<Rightarrow> state" where
  "sample_state b c = \<lparr>buffer = b, cursor = c, prefix = [], suffix = [], paused = False,
     completionList = None, history = [], history_index = - 1, closeOnThisOne = False,
     trace = [], arrays = (\<lambda>r. [])\<rparr>"

text \<open>After typing \<open>a\<close> into a fresh editor whose lookup always offers \<open>foo\<close>.\<close>

definition typed_a :: state where
  "typed_a = key_default foo_env ''a'' IO_new"

text \<open>A fresh editor after one ctrl-c.\<close>

definition armed_state :: state where
  "armed_state = (emit [Write exit_warning] IO_new)\<lparr>buffer := [], cursor := 0, closeOnThisOne := True\<rparr>"

text \<open>
  After typing \<open>a\<close>, return and then up: the only history entry is in the buffer (but for
  the terminal output, which is left out).
\<close>

definition browsing_newest :: state where
  "browsing_newest = \<lparr>buffer = ''a'', cursor = 1, prefix = [], suffix = [], paused = False,
     completionList = None, history = [''a''], history_index = 0, closeOnThisOne = False,
     trace = [], arrays = (\<lambda>r. [])\<rparr>"

text \<open>After typing \<open>a\<close> and \<open>b\<close> into a fresh editor whose lookup knows \<open>ab\<close>.\<close>

definition typed_ab :: state where
  "typed_ab = key_default ab_env ''b'' (key_default ab_env ''a'' IO_new)"

text \<open>
  An editor with \<open>ab\<close> typed and nothing queued, whose caller keeps the array
  \<open>["abc", "abd"]\<close> at address 0, and the states after one, two and three tabs.
\<close>

definition stored_start :: state where
  "stored_start = (sample_state ''ab'' 2)\<lparr>arrays := (\<lambda>r. [])(0 := [''abc'', ''abd''])\<rparr>"

definition stored_tab1 :: state where
  "stored_tab1 = autocomplete stored_env stored_start"

definition stored_tab2 :: state where
  "stored_tab2 = autocomplete stored_env stored_tab1"

definition stored_tab3 :: state where
  "stored_tab3 = autocomplete stored_env stored_tab2"

section \<open>Properties\<close>

subsection \<open>What rendering leaves alone\<close>

lemma submissions_append: "submissions (xs @ ys) = submissions xs @ submissions ys"
  by (induction xs rule: submissions.induct) simp_all

lemma redraw_frame:
  "buffer (redraw env st) = buffer st" "cursor (redraw env st) = cursor st"
  "prefix (redraw env st) = prefix st" "paused (redraw env st) = paused st"
  "history (redraw env st) = history st" "history_index (redraw env st) = history_index st"
  "closeOnThisOne (redraw env st) = closeOnThisOne st"
  "submissions (trace (redraw env st)) = submissions (trace st)"
  "arrays (redraw env st) = arrays st"
  by (simp_all add: redraw_def Let_def clear_def emit_def submissions_append split: option.splits)

lemma addSuffix_frame:
  "buffer (addSuffix x st) = buffer st" "cursor (addSuffix x st) = cursor st"
  "prefix (addSuffix x st) = prefix st" "paused (addSuffix x st) = paused st"
  "history (addSuffix x st) = history st" "history_index (addSuffix x st) = history_index st"
  "closeOnThisOne (addSuffix x st) = closeOnThisOne st"
  "submissions (trace (addSuffix x st)) = submissions (trace st)"
  by (simp_all add: addSuffix_def emit_def submissions_append)

lemma refresh_autocomplete_core:
  "same_core (refresh env complete st) st"
  "same_core (autocomplete env st') st'"
proof (induction env complete st and env st' rule: refresh_autocomplete.induct)
  case (1 env complete st)
  then show ?case
    by (simp add: refresh.simps [of env complete st] same_core_def redraw_frame)
next
  case (2 env st)
  then show ?case
    by (subst autocomplete.simps)
       (auto simp: same_core_def addSuffix_frame emit_def submissions_append
             split: option.splits list.splits prod.splits)
qed


lemma refresh_frame [simp]:
  "buffer (refresh env c st) = buffer st" "cursor (refresh env c st) = cursor st"
  "prefix (refresh env c st) = prefix st" "paused (refresh env c st) = paused st"
  "history (refresh env c st) = history st" "history_index (refresh env c st) = history_index st"
  "closeOnThisOne (refresh env c st) = closeOnThisOne st"
  "submissions (trace (refresh env c st)) = submissions (trace st)"
  using refresh_autocomplete_core(1) [of env c st] by (simp_all add: same_core_def)

lemma autocomplete_frame [simp]:
  "buffer (autocomplete env st) = buffer st" "cursor (autocomplete env st) = cursor st"
  "prefix (autocomplete env st) = prefix st" "paused (autocomplete env st) = paused st"
  "history (autocomplete env st) = history st"
  "history_index (autocomplete env st) = history_index st"
  "closeOnThisOne (autocomplete env st) = closeOnThisOne st"
  "submissions (trace (autocomplete env st)) = submissions (trace st)"
  using refresh_autocomplete_core(2) [of env st] by (simp_all add: same_core_def)

lemma slice_prefix: "0 \<le> c \<Longrightarrow> c \<le> int (length str) \<Longrightarrow> slice str 0 c = take (nat c) str"
  by (simp add: slice_def Let_def min_def)

lemma slice_rest:
  "0 \<le> c \<Longrightarrow> c \<le> int (length str) \<Longrightarrow> slice str c (int (length str)) = drop (nat c) str"
  by (simp add: slice_def Let_def min_def)

lemma slice_Nil [simp]: "slice [] b e = []"
  by (simp add: slice_def Let_def)

lemma splice_Nil [simp]: "splice [] c s = s"
  by (simp add: splice_def)

lemma splice_in_range:
  "0 \<le> c \<Longrightarrow> c \<le> int (length buf) \<Longrightarrow> splice buf c s = take (nat c) buf @ s @ drop (nat c) buf"
  by (cases "c < int (length buf)") (simp_all add: splice_def slice_prefix slice_rest)

lemma length_splice:
  "0 \<le> c \<Longrightarrow> c \<le> int (length buf) \<Longrightarrow> length (splice buf c s) = length buf + length s"
  by (simp add: splice_in_range)

lemma inv_appendToBuffer: "editor_inv st \<Longrightarrow> editor_inv (appendToBuffer env s st)"
  by (simp add: editor_inv_def appendToBuffer_def length_splice)

lemma inv_moveCursor: "editor_inv st \<Longrightarrow> editor_inv (moveCursor env n st)"
  by (simp add: editor_inv_def moveCursor_def)

lemma inv_submit:
  "editor_inv st \<Longrightarrow> history_index st = - 1 \<Longrightarrow>
     editor_inv (submit env st) \<and> history_index (submit env st) = - 1"
  by (auto simp: editor_inv_def submit_def Let_def pause_def unpause_def emit_def)

lemma inv_lines_loop:
  "editor_inv st \<Longrightarrow> history_index st = - 1 \<Longrightarrow> editor_inv (lines_loop env i ls st)"
proof (induction ls arbitrary: i st)
  case Nil
  then show ?case by simp
next
  case (Cons l ls)
  let ?st = "if i > 0 then submit env st else st"
  have "editor_inv ?st \<and> history_index ?st = - 1"
    using Cons.prems inv_submit by simp
  then have "editor_inv (appendToBuffer env l ?st) \<and> history_index (appendToBuffer env l ?st) = - 1"
    using inv_appendToBuffer by (simp add: appendToBuffer_def)
  then show ?case using Cons.IH by simp
qed

lemma inv_key_up: "editor_inv st \<Longrightarrow> \<exists>st'. key_up env st = Inr (Continue, st') \<and> editor_inv st'"
  by (auto simp: key_up_def history_at_def editor_inv_def)

lemma inv_key_down: "editor_inv st \<Longrightarrow> \<exists>st'. key_down env st = Inr (Continue, st') \<and> editor_inv st'"
  by (auto simp: key_down_def history_at_def editor_inv_def)

lemma inv_key_right: "editor_inv st \<Longrightarrow> editor_inv (key_right env st)"
  using inv_moveCursor by (auto simp: key_right_def editor_inv_def)

lemma inv_key_backspace: "editor_inv st \<Longrightarrow> editor_inv (key_backspace env st)"
proof (cases "cursor st = 0")
  case True
  then show "editor_inv st \<Longrightarrow> ?thesis" by (simp add: key_backspace_def)
next
  case False
  assume inv: "editor_inv st"
  then have c: "1 \<le> cursor st" "cursor st \<le> int (length (buffer st))"
    using False by (simp_all add: editor_inv_def)
  have "slice (buffer st) 0 (cursor st - 1) = take (nat (cursor st - 1)) (buffer st)"
    using c by (simp add: slice_prefix)
  moreover have "slice (buffer st) (cursor st) (int (length (buffer st))) = drop (nat (cursor st)) (buffer st)"
    using c by (simp add: slice_rest)
  ultimately show ?thesis
    using inv c False by (simp add: key_backspace_def moveCursor_def editor_inv_def)
qed

lemma inv_key_default: "editor_inv st \<Longrightarrow> editor_inv (key_default env s st)"
  using inv_lines_loop [of "st\<lparr>history_index := - 1\<rparr>" env 0 "split_lines s"]
  by (simp add: key_default_def editor_inv_def)

lemma inv_dispatch:
  "editor_inv st \<Longrightarrow> \<exists>st'. dispatch env s k st = Inr (Continue, st') \<and> editor_inv st'"
  using inv_key_up [of st env] inv_key_down [of st env] inv_moveCursor [of st env "- 1"]
    inv_key_right [of st env] inv_key_backspace [of st env] inv_key_default [of st env s]
  by (simp add: dispatch_def editor_inv_def)

lemma inv_handler:
  "editor_inv st \<Longrightarrow> \<exists>r st'. handler env s k st = Inr (r, st') \<and> editor_inv st'"
  using inv_dispatch [of "st\<lparr>closeOnThisOne := False\<rparr>" env s k]
  by (auto simp: handler_def editor_inv_def emit_def)

lemma inv_IO_new: "editor_inv IO_new"
  by (simp add: IO_new_def editor_inv_def unpause_def emit_def)

lemma reachable_IO_new: "reachable env IO_new"
  using reachable.start [of env "arrays IO_new"] by simp

lemma reachable_inv: "reachable env st \<Longrightarrow> editor_inv st"
proof (induction rule: reachable.induct)
  case (start h)
  show ?case by (simp add: IO_new_def editor_inv_def unpause_def emit_def)
next
  case (step st s k st')
  then show ?case using inv_handler [of st env s k] by simp
qed

subsection \<open>Inserting text\<close>

text \<open>
  Claim C5. For every buffer, every cursor position \<open>c\<close> with \<open>0 \<le> c \<le> length buffer\<close> and
  every text \<open>s\<close>, \<open>appendToBuffer\<close> leaves the buffer \<open>buffer[0:c] + s + buffer[c:]\<close> and
  the cursor \<open>c + length s\<close>.
\<close>

theorem insert_at_cursor:
  assumes "0 \<le> cursor st" and "cursor st \<le> int (length (buffer st))"
  shows "buffer (appendToBuffer env s st)
           = take (nat (cursor st)) (buffer st) @ s @ drop (nat (cursor st)) (buffer st)
         \<and> cursor (appendToBuffer env s st) = cursor st + int (length s)"
  using assms by (simp add: appendToBuffer_def splice_in_range)

theorem insert_at_cursor_witness:
  "0 \<le> cursor (sample_state ''held'' 2)
   \<and> cursor (sample_state ''held'' 2) \<le> int (length (buffer (sample_state ''held'' 2)))
   \<and> buffer (appendToBuffer echo_env ''xy'' (sample_state ''held'' 2)) = ''hexyld''
   \<and> cursor (appendToBuffer echo_env ''xy'' (sample_state ''held'' 2)) = 4"
  using insert_at_cursor [of "sample_state ''held'' 2" echo_env "''xy''"]
  by (simp add: sample_state_def)

subsection \<open>Line breaks in the typed text\<close>

lemma split_lines_nonempty: "split_lines s \<noteq> []"
  by (induction s rule: split_lines.induct) (auto split: list.splits)

lemma appendToBuffer_frame [simp]:
  "history_index (appendToBuffer env l st) = history_index st"
  "closeOnThisOne (appendToBuffer env l st) = closeOnThisOne st"
  "submissions (trace (appendToBuffer env l st)) = submissions (trace st)"
  "buffer (appendToBuffer env l st) = splice (buffer st) (cursor st) l"
  by (simp_all add: appendToBuffer_def)

lemma submit_frame [simp]:
  "buffer (submit env st) = []"
  "closeOnThisOne (submit env st) = closeOnThisOne st"
  "submissions (trace (submit env st))
     = submissions (trace st) @ (if buffer st \<noteq> [] then [buffer st] else [])"
  by (simp_all add: submit_def Let_def pause_def unpause_def emit_def submissions_append)

lemma moveCursor_frame [simp]:
  "closeOnThisOne (moveCursor env n st) = closeOnThisOne st"
  by (simp add: moveCursor_def)

lemma lines_loop_closeOnThisOne [simp]:
  "closeOnThisOne (lines_loop env i ls st) = closeOnThisOne st"
  by (induction ls arbitrary: i st) simp_all

lemma lines_loop_submissions:
  "0 < i \<Longrightarrow> submissions (trace (lines_loop env i ls st))
     = submissions (trace st) @ filter (\<lambda>l. l \<noteq> []) (butlast (buffer st # ls))"
proof (induction ls arbitrary: i st)
  case Nil
  then show ?case by simp
next
  case (Cons l ls)
  have "submissions (trace (lines_loop env (i + 1) ls (appendToBuffer env l (submit env st))))
          = submissions (trace (appendToBuffer env l (submit env st)))
            @ filter (\<lambda>l. l \<noteq> []) (butlast (buffer (appendToBuffer env l (submit env st)) # ls))"
    by (rule Cons.IH) simp
  then show ?case using Cons.prems by simp
qed

lemma key_default_submissions:
  assumes "s \<noteq> []" and "split_lines s = s0 # segs"
  shows "submissions (trace (key_default env s st))
           = submissions (trace st)
             @ filter (\<lambda>l. l \<noteq> []) (butlast (splice (buffer st) (cursor st) s0 # segs))"
  using assms lines_loop_submissions [of 1 env segs "appendToBuffer env s0 (st\<lparr>history_index := - 1\<rparr>)"]
  by (simp add: key_default_def)

lemma handler_unbound:
  "unbound_key k \<Longrightarrow> handler env s k st = Inr (Continue, key_default env s (st\<lparr>closeOnThisOne := False\<rparr>))"
  by (auto simp: unbound_key_def handler_def dispatch_def)

subsection \<open>Leaving with ctrl-c\<close>

lemma dispatch_closeOnThisOne:
  "dispatch env s k st = Inr (r, st') \<Longrightarrow> closeOnThisOne st' = closeOnThisOne st"
  by (auto simp: dispatch_def key_up_def key_down_def key_right_def key_backspace_def
        key_default_def split: if_splits option.splits)

lemma handler_disarms:
  assumes "\<not> ((ctrl k \<or> meta k) \<and> name k = Some ''c'')"
    and "handler env s k st = Inr (Continue, st')"
  shows "\<not> closeOnThisOne st'"
  using assms dispatch_closeOnThisOne [of env s k "st\<lparr>closeOnThisOne := False\<rparr>" Continue st']
  by (auto simp: handler_def split: if_splits)

text \<open>
  Claim C4. With \<open>closeOnThisOne\<close> unset, ctrl-c or meta-c does not return the exit
  value: it writes the warning, empties the buffer, puts the cursor at 0 and sets
  \<open>closeOnThisOne\<close>. The same key pressed again at once returns the exit value. After any
  other key in between that does not itself end the session, the same key does not
  return the exit value.
\<close>

theorem double_ctrl_c:
  assumes "ctrl k \<or> meta k" and "name k = Some ''c''" and "\<not> closeOnThisOne st"
  shows "\<exists>armed. handler env s k st = Inr (Continue, armed)
           \<and> trace armed = trace st @ [Write exit_warning]
           \<and> buffer armed = [] \<and> cursor armed = 0 \<and> closeOnThisOne armed
           \<and> handler env s k armed = Inr (Exit, armed)
           \<and> (\<forall>s' k' st2. \<not> ((ctrl k' \<or> meta k') \<and> name k' = Some ''c'')
                 \<longrightarrow> handler env s' k' armed = Inr (Continue, st2)
                 \<longrightarrow> (\<exists>st3. handler env s k st2 = Inr (Continue, st3)))"
proof -
  let ?armed = "(emit [Write exit_warning] st)\<lparr>buffer := [], cursor := 0, closeOnThisOne := True\<rparr>"
  have first: "handler env s k st = Inr (Continue, ?armed)"
    using assms by (simp add: handler_def)
  have second: "handler env s k ?armed = Inr (Exit, ?armed)"
    using assms by (simp add: handler_def)
  have later: "\<exists>st3. handler env s k st2 = Inr (Continue, st3)"
    if "\<not> ((ctrl k' \<or> meta k') \<and> name k' = Some ''c'')"
      and "handler env s' k' ?armed = Inr (Continue, st2)" for s' k' st2
  proof -
    have "\<not> closeOnThisOne st2" using that by (rule handler_disarms)
    then show ?thesis using assms(1,2) by (simp add: handler_def)
  qed
  have "trace ?armed = trace st @ [Write exit_warning]" by (simp add: emit_def)
  then show ?thesis using first second later by (intro exI [of _ ?armed]) auto
qed

theorem double_ctrl_c_witness:
  "(ctrl (ctrl_key ''c'') \<or> meta (ctrl_key ''c'')) \<and> name (ctrl_key ''c'') = Some ''c''
   \<and> \<not> closeOnThisOne (sample_state ''ab'' 2)
   \<and> (\<exists>armed. handler echo_env [] (ctrl_key ''c'') (sample_state ''ab'' 2) = Inr (Continue, armed)
        \<and> trace armed = [Write exit_warning] \<and> buffer armed = [] \<and> cursor armed = 0
        \<and> closeOnThisOne armed
        \<and> handler echo_env [] (ctrl_key ''c'') armed = Inr (Exit, armed)
        \<and> (\<exists>st2 st3. handler echo_env ''a'' text_key armed = Inr (Continue, st2)
              \<and> handler echo_env [] (ctrl_key ''c'') st2 = Inr (Continue, st3)))"
proof -
  have a: "ctrl (ctrl_key ''c'') \<or> meta (ctrl_key ''c'')" by (simp add: ctrl_key_def)
  have b: "name (ctrl_key ''c'') = Some ''c''" by (simp add: ctrl_key_def)
  have c: "\<not> closeOnThisOne (sample_state ''ab'' 2)" by (simp add: sample_state_def)
  obtain armed where arm: "handler echo_env [] (ctrl_key ''c'') (sample_state ''ab'' 2) = Inr (Continue, armed)"
    "trace armed = trace (sample_state ''ab'' 2) @ [Write exit_warning]"
    "buffer armed = []" "cursor armed = 0" "closeOnThisOne armed"
    "handler echo_env [] (ctrl_key ''c'') armed = Inr (Exit, armed)"
    and later: "\<And>s' k' st2. \<not> ((ctrl k' \<or> meta k') \<and> name k' = Some ''c'')
                 \<Longrightarrow> handler echo_env s' k' armed = Inr (Continue, st2)
                 \<Longrightarrow> (\<exists>st3. handler echo_env [] (ctrl_key ''c'') st2 = Inr (Continue, st3))"
    using double_ctrl_c [OF a b c, of echo_env "[]"] by blast
  have k: "unbound_key text_key" by (simp add: unbound_key_def text_key_def)
  have mid: "handler echo_env ''a'' text_key armed
               = Inr (Continue, key_default echo_env ''a'' (armed\<lparr>closeOnThisOne := False\<rparr>))"
    using k by (rule handler_unbound)
  have "\<not> ((ctrl text_key \<or> meta text_key) \<and> name text_key = Some ''c'')"
    by (simp add: text_key_def)
  then have "\<exists>st3. handler echo_env [] (ctrl_key ''c'')
                 (key_default echo_env ''a'' (armed\<lparr>closeOnThisOne := False\<rparr>)) = Inr (Continue, st3)"
    using mid by (rule later)
  then show ?thesis using a b c arm mid by (auto simp: sample_state_def)
qed

subsection \<open>The steps of the cycler\<close>

lemma redraw_clears [simp]:
  "suffix (redraw env st) = []" "completionList (redraw env st) = None"
  by (simp_all add: redraw_def Let_def clear_def emit_def split: option.splits)

lemma autocomplete_disabled: "onAutocomplete env = None \<Longrightarrow> autocomplete env st = st"
  by (simp add: autocomplete.simps)

lemma autocomplete_next:
  "onAutocomplete env = Some lookup \<Longrightarrow> completionList st = Some r \<Longrightarrow>
     arrays st r = c # cs \<Longrightarrow>
     autocomplete env st = addSuffix c (st\<lparr>arrays := (arrays st)(r := cs)\<rparr>)"
  by (simp add: autocomplete.simps)

lemma autocomplete_exhausted:
  "onAutocomplete env = Some lookup \<Longrightarrow> completionList st = Some r \<Longrightarrow>
     arrays st r = [] \<Longrightarrow>
     autocomplete env st = refresh env False (st\<lparr>completionList := None\<rparr>)"
  by (simp add: autocomplete.simps)

lemma autocomplete_query:
  "onAutocomplete env = Some lookup \<Longrightarrow> completionList st = None \<Longrightarrow>
     lookup (buffer st) (arrays st) = (Some r, h) \<Longrightarrow> h r = c # cs \<Longrightarrow>
     autocomplete env st
       = addSuffix c ((emit [Lookup (buffer st)] st)
                        \<lparr>arrays := h(r := cs), completionList := Some r\<rparr>)"
  by (subst autocomplete.simps, cases st) (simp add: autocomplete_next emit_def)

lemma autocomplete_query_empty:
  "onAutocomplete env = Some lookup \<Longrightarrow> completionList st = None \<Longrightarrow>
     lookup (buffer st) (arrays st) = (Some r, h) \<Longrightarrow> h r = [] \<Longrightarrow>
     autocomplete env st
       = refresh env False ((emit [Lookup (buffer st)] st)
                              \<lparr>arrays := h, completionList := None\<rparr>)"
  by (subst autocomplete.simps) (simp add: autocomplete_exhausted emit_def)

lemma autocomplete_query_none:
  "onAutocomplete env = Some lookup \<Longrightarrow> completionList st = None \<Longrightarrow>
     lookup (buffer st) (arrays st) = (None, h) \<Longrightarrow>
     autocomplete env st = (emit [Lookup (buffer st)] st)\<lparr>arrays := h\<rparr>"
  by (simp add: autocomplete.simps)

lemma refresh_plain: "\<not> paused st \<Longrightarrow> refresh env False st = redraw env st"
  by (simp add: refresh.simps)

lemma refresh_preview:
  "\<not> paused st \<Longrightarrow> buffer st \<noteq> [] \<Longrightarrow> refresh env True st = autocomplete env (redraw env st)"
  by (simp add: refresh.simps redraw_frame)

text \<open>The suggestion a lookup's answer leads to: the first element of the array it hands out.\<close>

lemma preview_suffix:
  assumes "\<not> paused st" and "buffer st \<noteq> []" and "cursor st = int (length (buffer st))"
  shows "suffix (refresh env True st)
           = (case onAutocomplete env of
                None \<Rightarrow> []
              | Some lookup \<Rightarrow> first_offer (lookup (buffer st) (arrays st)))"
proof (cases "onAutocomplete env")
  case None
  then show ?thesis using assms by (simp add: refresh_preview autocomplete_disabled)
next
  case (Some lookup)
  let ?r = "redraw env st"
  have r: "\<not> paused ?r" "completionList ?r = None" "buffer ?r = buffer st"
    "cursor ?r = int (length (buffer ?r))" "arrays ?r = arrays st"
    using assms by (simp_all add: redraw_frame)
  obtain a h where ans: "lookup (buffer st) (arrays st) = (a, h)"
    by (cases "lookup (buffer st) (arrays st)")
  show ?thesis
  proof (cases a)
    case None
    then show ?thesis
      using assms Some r ans autocomplete_query_none [of env lookup ?r h]
      by (simp add: refresh_preview emit_def first_offer_def)
  next
    case (Some ref)
    show ?thesis
    proof (cases "h ref")
      case Nil
      then show ?thesis
        using assms \<open>onAutocomplete env = Some lookup\<close> Some r ans
          autocomplete_query_empty [of env lookup ?r ref h]
        by (simp add: refresh_preview refresh_plain emit_def first_offer_def)
    next
      case (Cons c cs)
      then show ?thesis
        using assms \<open>onAutocomplete env = Some lookup\<close> Some r ans
          autocomplete_query [of env lookup ?r ref h c cs]
        by (simp add: refresh_preview addSuffix_def emit_def first_offer_def)
    qed
  qed
qed

lemmas eval_defs = IO_new_def unpause_def pause_def emit_def clear_def redraw_def addSuffix_def
  appendToBuffer_def moveCursor_def submit_def key_up_def key_down_def key_right_def
  key_backspace_def key_default_def dispatch_def handler_def splice_def slice_def history_at_def
  refresh.simps autocomplete.simps Let_def
  echo_env_def foo_env_def foo_lookup_def ab_env_def ab_lookup_def stored_env_def
  stored_lookup_def text_key_def named_key_def ctrl_key_def sample_state_def

subsection \<open>What a line break does\<close>

lemma besides_drawing_append:
  "besides_drawing m (xs @ ys) = besides_drawing m xs @ besides_drawing (ends_marked m xs) ys"
  by (induction xs arbitrary: m) simp_all

lemma ends_marked_append: "ends_marked m (xs @ ys) = ends_marked (ends_marked m xs) ys"
  by (induction xs arbitrary: m) simp_all

lemma drawing_Nil [simp]: "drawing []"
  by (simp add: drawing_def)

lemma drawing_append: "drawing xs \<Longrightarrow> drawing ys \<Longrightarrow> drawing (xs @ ys)"
  by (simp add: drawing_def besides_drawing_append ends_marked_append)

lemma drawn_more_iff: "drawn_more old new \<longleftrightarrow> (\<exists>es. new = old @ es \<and> drawing es)"
proof
  assume "drawn_more old new"
  then have "new = old @ drop (length old) new \<and> drawing (drop (length old) new)"
    by (metis append_take_drop_id drawn_more_def)
  then show "\<exists>es. new = old @ es \<and> drawing es" by blast
next
  assume "\<exists>es. new = old @ es \<and> drawing es"
  then show "drawn_more old new" by (auto simp: drawn_more_def)
qed

lemma drawn_more_refl [simp]: "drawn_more xs xs"
  by (simp add: drawn_more_iff)

lemma drawn_more_trans: "drawn_more a b \<Longrightarrow> drawn_more b c \<Longrightarrow> drawn_more a c"
  by (auto simp: drawn_more_iff intro: drawing_append)

lemma drawn_more_step: "drawing es \<Longrightarrow> drawn_more a b \<Longrightarrow> drawn_more a (b @ es)"
  by (auto simp: drawn_more_iff intro: drawing_append)

lemma redraw_drawn: "drawn_more (trace st) (trace (redraw env st))"
  by (simp add: redraw_def Let_def clear_def emit_def drawn_more_iff drawing_def
      split: option.splits)

lemma addSuffix_drawn: "drawn_more (trace st) (trace (addSuffix c st))"
  by (simp add: addSuffix_def emit_def drawn_more_iff drawing_def)


lemma refresh_autocomplete_drawn:
  "drawn_more (trace st) (trace (refresh env complete st))"
  "drawn_more (trace st') (trace (autocomplete env st'))"
proof (induction env complete st and env st' rule: refresh_autocomplete.induct)
  case (1 env complete st)
  show ?case
  proof (cases "paused st")
    case True
    then show ?thesis by (simp add: refresh.simps)
  next
    case False
    show ?thesis
    proof (cases "complete \<and> buffer (redraw env st) \<noteq> []")
      case True
      have ih: "drawn_more (trace (redraw env st)) (trace (autocomplete env (redraw env st)))"
        using 1 [OF False True] .
      have eq: "refresh env complete st = autocomplete env (redraw env st)"
        using False True by (simp add: refresh.simps)
      show ?thesis
        unfolding eq by (rule drawn_more_trans [OF redraw_drawn ih])
    next
      case nc: False
      have eq: "refresh env complete st = redraw env st"
        using False nc by (auto simp: refresh.simps)
      show ?thesis unfolding eq by (rule redraw_drawn)
    qed
  qed
next
  case (2 env st)
  show ?case
  proof (cases "onAutocomplete env")
    case None
    then show ?thesis by (simp add: autocomplete_disabled)
  next
    case (Some lookup)
    show ?thesis
    proof (cases "completionList st")
      case queued: (Some r)
      show ?thesis
      proof (cases "arrays st r")
        case Nil
        have ih: "drawn_more (trace (st\<lparr>completionList := None\<rparr>))
                     (trace (refresh env False (st\<lparr>completionList := None\<rparr>)))"
          using 2(2) [OF Some queued Nil] .
        have eq: "autocomplete env st = refresh env False (st\<lparr>completionList := None\<rparr>)"
          using Some queued Nil by (rule autocomplete_exhausted)
        show ?thesis using ih unfolding eq by simp
      next
        case (Cons c cs)
        have eq: "autocomplete env st = addSuffix c (st\<lparr>arrays := (arrays st)(r := cs)\<rparr>)"
          using Some queued Cons by (rule autocomplete_next)
        show ?thesis
          using addSuffix_drawn [of "st\<lparr>arrays := (arrays st)(r := cs)\<rparr>" c]
          unfolding eq by simp
      qed
    next
      case None
      obtain a h where ans: "lookup (buffer st) (arrays st) = (a, h)"
        by (cases "lookup (buffer st) (arrays st)")
      have lk: "drawing [Lookup (buffer st)]" by (simp add: drawing_def)
      show ?thesis
      proof (cases a)
        case no: None
        have eq: "autocomplete env st = (emit [Lookup (buffer st)] st)\<lparr>arrays := h\<rparr>"
          using Some None ans no autocomplete_query_none [of env lookup st h] by simp
        show ?thesis
          unfolding eq using drawn_more_step [OF lk drawn_more_refl, of "trace st"]
          by (simp add: emit_def)
      next
        case (Some c)
        let ?q = "(emit [Lookup (buffer st)] st)\<lparr>arrays := h, completionList := Some c\<rparr>"
        have ans': "(a, h) = lookup (buffer st) (arrays st)" using ans by simp
        have ih: "drawn_more (trace ?q) (trace (autocomplete env ?q))"
          using 2(1) [OF \<open>onAutocomplete env = Some lookup\<close> None ans' Some] .
        have first: "drawn_more (trace st) (trace ?q)"
          using drawn_more_step [OF lk drawn_more_refl, of "trace st"] by (simp add: emit_def)
        have eq: "autocomplete env st = autocomplete env ?q"
          using \<open>onAutocomplete env = Some lookup\<close> None ans Some
          by (subst autocomplete.simps) simp
        show ?thesis unfolding eq by (rule drawn_more_trans [OF first ih])
      qed
    qed
  qed
qed


lemma drawn_moreD:
  "drawn_more old new \<Longrightarrow> \<exists>es. new = old @ es \<and> besides_drawing False es = []
     \<and> \<not> ends_marked False es"
  by (auto simp: drawn_more_iff drawing_def)

lemma appendToBuffer_effects:
  "\<exists>es. trace (appendToBuffer env l st) = trace st @ es \<and> besides_drawing False es = []
     \<and> \<not> ends_marked False es"
  using refresh_autocomplete_drawn(1)
    [of "st\<lparr>buffer := splice (buffer st) (cursor st) l, cursor := cursor st + int (length l)\<rparr>"
      env True]
  by (simp add: appendToBuffer_def drawn_moreD)

lemma submit_effects:
  "\<exists>es. trace (submit env st) = trace st @ es
     \<and> besides_drawing False es = line_break_effects env (buffer st)
     \<and> \<not> ends_marked False es"
proof (cases "buffer st = []")
  case True
  let ?w = "emit [Write [CHR 0x0A]] st"
  obtain es where es: "trace (refresh env True ?w) = trace ?w @ es"
    "besides_drawing False es = []" "\<not> ends_marked False es"
    using drawn_moreD [OF refresh_autocomplete_drawn(1) [of ?w env True]] by blast
  have "trace (submit env st) = trace st @ (Write [CHR 0x0A] # es)"
    using True es(1) by (simp add: submit_def emit_def)
  moreover have "besides_drawing False (Write [CHR 0x0A] # es) = line_break_effects env (buffer st)"
    using True es(2) by (simp add: line_break_effects_def)
  moreover have "\<not> ends_marked False (Write [CHR 0x0A] # es)"
    using es(3) by simp
  ultimately show ?thesis by blast
next
  case False
  let ?b = "buffer st"
  let ?mid = "[Cork, Write [CHR 0x0A], OnLine ?b, Write (onLine env ?b @ [CHR 0x0A]), Uncork]"
  let ?r = "refresh env False st"
  obtain es1 where es1: "trace ?r = trace st @ es1"
    "besides_drawing False es1 = []" "\<not> ends_marked False es1"
    using drawn_moreD [OF refresh_autocomplete_drawn(1) [of st env False]] by blast
  let ?u = "unpause (emit [OnLine ?b, Write (onLine env ?b @ [CHR 0x0A])]
              ((emit [Write [CHR 0x0A]] (pause ?r))
                 \<lparr>buffer := [], cursor := 0, history := ?b # history st\<rparr>))"
  have u: "trace ?u = trace st @ es1 @ ?mid"
    using es1(1) by (simp add: unpause_def pause_def emit_def)
  obtain es2 where es2: "trace (refresh env True ?u) = trace ?u @ es2"
    "besides_drawing False es2 = []" "\<not> ends_marked False es2"
    using drawn_moreD [OF refresh_autocomplete_drawn(1) [of ?u env True]] by blast
  have sub: "submit env st = refresh env True ?u"
    using False by (simp add: submit_def Let_def pause_def emit_def)
  have "trace (submit env st) = trace st @ (es1 @ ?mid @ es2)"
    using es2(1) u by (simp only: sub append_assoc)
  moreover have "besides_drawing False (es1 @ ?mid @ es2) = line_break_effects env ?b"
    using False es1(2,3) es2(2)
    by (simp add: besides_drawing_append line_break_effects_def)
  moreover have "\<not> ends_marked False (es1 @ ?mid @ es2)"
    using es2(3) by (simp add: ends_marked_append)
  ultimately show ?thesis by blast
qed

lemma submit_history [simp]:
  "history (submit env st) = (if buffer st \<noteq> [] then buffer st # history st else history st)"
  by (simp add: submit_def Let_def pause_def unpause_def emit_def)

lemma appendToBuffer_history [simp]: "history (appendToBuffer env l st) = history st"
  by (simp add: appendToBuffer_def)

lemma lines_loop_history:
  "0 < i \<Longrightarrow> history (lines_loop env i ls st)
     = rev (filter (\<lambda>l. l \<noteq> []) (butlast (buffer st # ls))) @ history st"
proof (induction ls arbitrary: i st)
  case Nil
  then show ?case by simp
next
  case (Cons l ls)
  have "history (lines_loop env (i + 1) ls (appendToBuffer env l (submit env st)))
          = rev (filter (\<lambda>l. l \<noteq> []) (butlast (buffer (appendToBuffer env l (submit env st)) # ls)))
            @ history (appendToBuffer env l (submit env st))"
    by (rule Cons.IH) simp
  then show ?case using Cons.prems by simp
qed

lemma lines_loop_effects:
  "0 < i \<Longrightarrow> \<exists>es. trace (lines_loop env i ls st) = trace st @ es
     \<and> besides_drawing False es
         = concat (map (line_break_effects env) (butlast (buffer st # ls)))
     \<and> \<not> ends_marked False es"
proof (induction ls arbitrary: i st)
  case Nil
  then show ?case by simp
next
  case (Cons l ls)
  let ?s = "submit env st"
  let ?a = "appendToBuffer env l ?s"
  obtain es1 where es1: "trace ?s = trace st @ es1"
    "besides_drawing False es1 = line_break_effects env (buffer st)" "\<not> ends_marked False es1"
    using submit_effects [of env st] by blast
  obtain es2 where es2: "trace ?a = trace ?s @ es2"
    "besides_drawing False es2 = []" "\<not> ends_marked False es2"
    using appendToBuffer_effects [of env l ?s] by blast
  have "\<exists>es. trace (lines_loop env (i + 1) ls ?a) = trace ?a @ es
     \<and> besides_drawing False es = concat (map (line_break_effects env) (butlast (buffer ?a # ls)))
     \<and> \<not> ends_marked False es"
    by (rule Cons.IH) simp
  then obtain es3 where es3: "trace (lines_loop env (i + 1) ls ?a) = trace ?a @ es3"
    "besides_drawing False es3 = concat (map (line_break_effects env) (butlast (l # ls)))"
    "\<not> ends_marked False es3"
    by auto
  have loop: "lines_loop env i (l # ls) st = lines_loop env (i + 1) ls ?a"
    using Cons.prems by simp
  have "trace (lines_loop env i (l # ls) st) = trace st @ (es1 @ es2 @ es3)"
    using es1(1) es2(1) es3(1) by (simp only: loop append_assoc)
  moreover have "besides_drawing False (es1 @ es2 @ es3)
      = concat (map (line_break_effects env) (butlast (buffer st # l # ls)))"
    using es1(2,3) es2(2,3) es3(2) by (simp add: besides_drawing_append)
  moreover have "\<not> ends_marked False (es1 @ es2 @ es3)"
    using es1(3) es2(3) es3(3) by (simp add: ends_marked_append)
  ultimately show ?case by blast
qed

lemma key_default_effects:
  assumes "s \<noteq> []" and "split_lines s = s0 # segs"
  shows "\<exists>es. trace (key_default env s st) = trace st @ es
     \<and> besides_drawing False es
         = concat (map (line_break_effects env)
             (butlast (splice (buffer st) (cursor st) s0 # segs)))"
proof -
  let ?a = "appendToBuffer env s0 (st\<lparr>history_index := - 1\<rparr>)"
  obtain es0 where es0: "trace ?a = trace st @ es0"
    "besides_drawing False es0 = []" "\<not> ends_marked False es0"
    using appendToBuffer_effects [of env s0 "st\<lparr>history_index := - 1\<rparr>"] by auto
  obtain es where es: "trace (lines_loop env 1 segs ?a) = trace ?a @ es"
    "besides_drawing False es
       = concat (map (line_break_effects env) (butlast (buffer ?a # segs)))"
    using lines_loop_effects [of 1 env segs ?a] by auto
  have kd: "key_default env s st = lines_loop env 1 segs ?a"
    using assms by (simp add: key_default_def)
  have "trace (key_default env s st) = trace st @ (es0 @ es)"
    using es0(1) es(1) by (simp only: kd append_assoc)
  moreover have "besides_drawing False (es0 @ es)
      = concat (map (line_break_effects env) (butlast (splice (buffer st) (cursor st) s0 # segs)))"
    using es0(2,3) es(2) by (simp add: besides_drawing_append)
  ultimately show ?thesis by blast
qed

lemma key_default_history:
  assumes "s \<noteq> []" and "split_lines s = s0 # segs"
  shows "history (key_default env s st)
     = rev (filter (\<lambda>l. l \<noteq> []) (butlast (splice (buffer st) (cursor st) s0 # segs)))
       @ history st"
  using assms lines_loop_history [of 1 env segs "appendToBuffer env s0 (st\<lparr>history_index := - 1\<rparr>)"]
  by (simp add: key_default_def)

text \<open>
  Claim C2, as amended. A payload \<open>s\<close> that reaches the default case is split into the
  segments \<open>s0 # segs\<close>, so it has \<open>length segs\<close> line breaks. Handling it calls the
  submission handler once for every line break at which the buffer is not empty, with
  that buffer as the line, from left to right; the buffer is the old buffer with \<open>s0\<close>
  inserted at the first break and the segment just inserted at every later one. That is
  at most one call for each line break, and exactly one for each when the buffer is
  empty at none of them. Apart from drawing the line, the editor does at such a break, in
  this order: cork the input, write a newline, call the handler, write its result and a
  newline, uncork the input; the line is put in front of the history. At a break with an
  empty buffer it only writes a newline, apart from drawing the line. So every call is
  made and answered while the input is corked, and all of them before the handling of the
  key event ends and the next key event is handled.
\<close>

theorem paste_submissions:
  assumes "unbound_key k" and "s \<noteq> []" and "split_lines s = s0 # segs"
  shows "\<exists>st' new. handler env s k st = Inr (Continue, st')
           \<and> trace st' = trace st @ new
           \<and> besides_drawing False new
               = concat (map (line_break_effects env)
                   (butlast (splice (buffer st) (cursor st) s0 # segs)))
           \<and> submissions (trace st')
               = submissions (trace st)
                 @ filter (\<lambda>l. l \<noteq> []) (butlast (splice (buffer st) (cursor st) s0 # segs))
           \<and> history st'
               = rev (filter (\<lambda>l. l \<noteq> []) (butlast (splice (buffer st) (cursor st) s0 # segs)))
                 @ history st
           \<and> length (submissions (trace st')) \<le> length (submissions (trace st)) + length segs
           \<and> (list_all (\<lambda>l. l \<noteq> []) (butlast (splice (buffer st) (cursor st) s0 # segs))
                \<longrightarrow> length (submissions (trace st'))
                      = length (submissions (trace st)) + length segs)
           \<and> run env ((s, k) # evs) st = run env evs st'"
proof -
  let ?st0 = "st\<lparr>closeOnThisOne := False\<rparr>"
  let ?st' = "key_default env s ?st0"
  let ?bs = "butlast (splice (buffer st) (cursor st) s0 # segs)"
  have h: "handler env s k st = Inr (Continue, ?st')"
    using assms(1) by (rule handler_unbound)
  obtain new where new: "trace ?st' = trace st @ new"
    "besides_drawing False new = concat (map (line_break_effects env) ?bs)"
    using key_default_effects [OF assms(2,3), of env ?st0] by auto
  have sub: "submissions (trace ?st') = submissions (trace st) @ filter (\<lambda>l. l \<noteq> []) ?bs"
    using key_default_submissions [OF assms(2,3), of env ?st0] by simp
  have hist: "history ?st' = rev (filter (\<lambda>l. l \<noteq> []) ?bs) @ history st"
    using key_default_history [OF assms(2,3), of env ?st0] by simp
  have n: "length ?bs = length segs" by simp
  have "length (filter (\<lambda>l. l \<noteq> []) ?bs) \<le> length segs"
    using length_filter_le [of "\<lambda>l. l \<noteq> []" ?bs] by (simp only: n)
  then have len: "length (submissions (trace ?st')) \<le> length (submissions (trace st)) + length segs"
    by (simp only: sub length_append)
  have all: "length (submissions (trace ?st')) = length (submissions (trace st)) + length segs"
    if "list_all (\<lambda>l. l \<noteq> []) ?bs"
  proof -
    have "filter (\<lambda>l. l \<noteq> []) ?bs = ?bs"
      using that by (simp only: filter_id_conv list_all_iff)
    then show ?thesis by (simp only: sub length_append n)
  qed
  have next_event: "run env ((s, k) # evs) st = run env evs ?st'"
    using h by simp
  show ?thesis
    using h new sub hist len all next_event
    by (intro exI [of _ ?st'] exI [of _ new] conjI impI)
qed

theorem paste_submissions_witness:
  "unbound_key text_key
   \<and> [CHR ''x'', CHR 0x0A, CHR 0x0A, CHR ''y''] \<noteq> []
   \<and> split_lines [CHR ''x'', CHR 0x0A, CHR 0x0A, CHR ''y''] = ''x'' # [[], ''y'']
   \<and> (\<exists>st' new.
         handler echo_env [CHR ''x'', CHR 0x0A, CHR 0x0A, CHR ''y''] text_key IO_new
           = Inr (Continue, st')
         \<and> trace st' = trace IO_new @ new
         \<and> besides_drawing False new
             = [Cork, Write [CHR 0x0A], OnLine ''x'', Write [CHR ''x'', CHR 0x0A], Uncork,
                Write [CHR 0x0A]]
         \<and> submissions (trace st') = [''x''] \<and> history st' = [''x'']
         \<and> run echo_env [([CHR ''x'', CHR 0x0A, CHR 0x0A, CHR ''y''], text_key)] IO_new
             = run echo_env [] st')
   \<and> [CHR ''x'', CHR 0x0A, CHR ''y'', CHR 0x0A] \<noteq> []
   \<and> split_lines [CHR ''x'', CHR 0x0A, CHR ''y'', CHR 0x0A] = ''x'' # [''y'', []]
   \<and> list_all (\<lambda>l. l \<noteq> [])
        (butlast (splice (buffer IO_new) (cursor IO_new) ''x'' # [''y'', []]))
   \<and> (\<exists>st'. handler echo_env [CHR ''x'', CHR 0x0A, CHR ''y'', CHR 0x0A] text_key IO_new
               = Inr (Continue, st')
         \<and> submissions (trace st') = [''x'', ''y''] \<and> history st' = [''y'', ''x'']
         \<and> length (submissions (trace st')) = 2)"
proof -
  have k: "unbound_key text_key" by (simp add: unbound_key_def text_key_def)
  have s: "[CHR ''x'', CHR 0x0A, CHR 0x0A, CHR ''y''] \<noteq> []" by simp
  have sp: "split_lines [CHR ''x'', CHR 0x0A, CHR 0x0A, CHR ''y''] = ''x'' # [[], ''y'']" by simp
  have s2: "[CHR ''x'', CHR 0x0A, CHR ''y'', CHR 0x0A] \<noteq> []" by simp
  have sp2: "split_lines [CHR ''x'', CHR 0x0A, CHR ''y'', CHR 0x0A] = ''x'' # [''y'', []]" by simp
  have io: "buffer IO_new = []" "cursor IO_new = 0" "trace IO_new = [Uncork]" "history IO_new = []"
    by (simp_all add: IO_new_def unpause_def emit_def)
  have full: "list_all (\<lambda>l. l \<noteq> [])
        (butlast (splice (buffer IO_new) (cursor IO_new) ''x'' # [''y'', []]))"
    by (simp add: io)
  obtain st' new where a:
    "handler echo_env [CHR ''x'', CHR 0x0A, CHR 0x0A, CHR ''y''] text_key IO_new = Inr (Continue, st')"
    "trace st' = trace IO_new @ new"
    "besides_drawing False new = concat (map (line_break_effects echo_env)
        (butlast (splice (buffer IO_new) (cursor IO_new) ''x'' # [[], ''y''])))"
    "submissions (trace st') = submissions (trace IO_new)
       @ filter (\<lambda>l. l \<noteq> []) (butlast (splice (buffer IO_new) (cursor IO_new) ''x'' # [[], ''y'']))"
    "history st' = rev (filter (\<lambda>l. l \<noteq> [])
        (butlast (splice (buffer IO_new) (cursor IO_new) ''x'' # [[], ''y'']))) @ history IO_new"
    "run echo_env [([CHR ''x'', CHR 0x0A, CHR 0x0A, CHR ''y''], text_key)] IO_new = run echo_env [] st'"
    using paste_submissions [OF k s sp, of echo_env IO_new "[]"] by blast
  obtain st2 where b:
    "handler echo_env [CHR ''x'', CHR 0x0A, CHR ''y'', CHR 0x0A] text_key IO_new = Inr (Continue, st2)"
    "submissions (trace st2) = submissions (trace IO_new)
       @ filter (\<lambda>l. l \<noteq> []) (butlast (splice (buffer IO_new) (cursor IO_new) ''x'' # [''y'', []]))"
    "history st2 = rev (filter (\<lambda>l. l \<noteq> [])
        (butlast (splice (buffer IO_new) (cursor IO_new) ''x'' # [''y'', []]))) @ history IO_new"
    "list_all (\<lambda>l. l \<noteq> []) (butlast (splice (buffer IO_new) (cursor IO_new) ''x'' # [''y'', []]))
       \<longrightarrow> length (submissions (trace st2)) = length (submissions (trace IO_new)) + length [''y'', []]"
    using paste_submissions [OF k s2 sp2, of echo_env IO_new "[]"] by blast
  have first: "\<exists>st' new.
         handler echo_env [CHR ''x'', CHR 0x0A, CHR 0x0A, CHR ''y''] text_key IO_new
           = Inr (Continue, st')
         \<and> trace st' = trace IO_new @ new
         \<and> besides_drawing False new
             = [Cork, Write [CHR 0x0A], OnLine ''x'', Write [CHR ''x'', CHR 0x0A], Uncork,
                Write [CHR 0x0A]]
         \<and> submissions (trace st') = [''x''] \<and> history st' = [''x'']
         \<and> run echo_env [([CHR ''x'', CHR 0x0A, CHR 0x0A, CHR ''y''], text_key)] IO_new
             = run echo_env [] st'"
    using a by (intro exI [of _ st'] exI [of _ new] conjI)
      (simp_all add: io line_break_effects_def echo_env_def)
  have second: "\<exists>st'. handler echo_env [CHR ''x'', CHR 0x0A, CHR ''y'', CHR 0x0A] text_key IO_new
               = Inr (Continue, st')
         \<and> submissions (trace st') = [''x'', ''y''] \<and> history st' = [''y'', ''x'']
         \<and> length (submissions (trace st')) = 2"
    using b full by (intro exI [of _ st2] conjI) (simp_all add: io)
  show ?thesis using k s sp s2 sp2 full first second by (intro conjI)
qed

text \<open>
  A line break typed into an empty buffer: the payload has one line break and the
  submission handler is not called.
\<close>

theorem empty_line_counterexample:
  "length (split_lines [CHR 0x0A]) - 1 = 1
   \<and> handler echo_env [CHR 0x0A] text_key IO_new
       = Inr (Continue, key_default echo_env [CHR 0x0A] IO_new)
   \<and> submissions (trace (key_default echo_env [CHR 0x0A] IO_new)) = []"
proof -
  have k: "unbound_key text_key" by (simp add: unbound_key_def text_key_def)
  have "IO_new\<lparr>closeOnThisOne := False\<rparr> = IO_new"
    by (simp add: IO_new_def unpause_def emit_def)
  then have h: "handler echo_env [CHR 0x0A] text_key IO_new
       = Inr (Continue, key_default echo_env [CHR 0x0A] IO_new)"
    using handler_unbound [OF k, of echo_env "[CHR 0x0A]" IO_new] by simp
  have "submissions (trace (key_default echo_env [CHR 0x0A] IO_new)) = []"
    using key_default_submissions [of "[CHR 0x0A]" "[]" "[[]]" echo_env IO_new]
    by (simp add: IO_new_def unpause_def emit_def)
  then show ?thesis using h by simp
qed

subsection \<open>The cursor stays inside the buffer\<close>

text \<open>
  Claim C3. In every state the editor can reach, every key event is handled without an
  exception, and afterwards the cursor satisfies \<open>0 \<le> cursor \<le> length buffer\<close>.
\<close>

theorem cursor_in_bounds:
  assumes "reachable env st"
  shows "\<exists>r st'. handler env s k st = Inr (r, st')
           \<and> 0 \<le> cursor st' \<and> cursor st' \<le> int (length (buffer st'))"
  using inv_handler [OF reachable_inv [OF assms], of env s k] by (auto simp: editor_inv_def)

theorem cursor_in_bounds_witness:
  "reachable echo_env IO_new
   \<and> (\<exists>r st'. handler echo_env ''a'' text_key IO_new = Inr (r, st')
        \<and> 0 \<le> cursor st' \<and> cursor st' \<le> int (length (buffer st'))
        \<and> buffer st' = ''a'' \<and> cursor st' = 1)"
proof -
  obtain r st' where h: "handler echo_env ''a'' text_key IO_new = Inr (r, st')"
    "0 \<le> cursor st'" "cursor st' \<le> int (length (buffer st'))"
    using cursor_in_bounds [OF reachable_IO_new, of echo_env "''a''" text_key] by blast
  have "handler echo_env ''a'' text_key IO_new
          = Inr (Continue, key_default echo_env ''a'' (IO_new\<lparr>closeOnThisOne := False\<rparr>))"
    by (rule handler_unbound) (simp add: unbound_key_def text_key_def)
  then have "st' = key_default echo_env ''a'' (IO_new\<lparr>closeOnThisOne := False\<rparr>)"
    using h(1) by simp
  then have "buffer st' = ''a''" "cursor st' = 1"
    by (simp_all add: eval_defs)
  then show ?thesis using h reachable_IO_new by blast
qed

subsection \<open>Accepting a suggestion\<close>

lemma handler_right:
  "name k = Some ''right'' \<Longrightarrow>
     handler env s k st = Inr (Continue, key_right env (st\<lparr>closeOnThisOne := False\<rparr>))"
  by (simp add: handler_def dispatch_def)

text \<open>
  Claim C6, as amended. With the cursor at the end of the buffer and a suggestion
  present, the key \<open>right\<close> appends the suggestion to the buffer and advances the cursor by
  its length. The redraw that follows (when the editor is not paused) drops the accepted
  suggestion and at once asks the lookup about the new buffer: afterwards there is no
  suggestion when there is no lookup or it offers nothing, and otherwise the first
  candidate it offers is the new suggestion.
\<close>

theorem accept_suggestion:
  assumes "name k = Some ''right''" and "cursor st = int (length (buffer st))"
    and "suffix st \<noteq> []"
  shows "\<exists>st'. handler env s k st = Inr (Continue, st')
           \<and> buffer st' = buffer st @ suffix st
           \<and> cursor st' = cursor st + int (length (suffix st))
           \<and> (\<not> paused st \<longrightarrow>
                suffix st' = (case onAutocomplete env of
                                None \<Rightarrow> []
                              | Some lookup \<Rightarrow>
                                  first_offer (lookup (buffer st @ suffix st) (arrays st))))"
proof -
  let ?new = "st\<lparr>closeOnThisOne := False, completionList := None,
                 buffer := buffer st @ suffix st,
                 cursor := cursor st + int (length (suffix st))\<rparr>"
  have h: "handler env s k st = Inr (Continue, refresh env True ?new)"
    using assms by (simp add: handler_right key_right_def)
  have "suffix (refresh env True ?new)
          = (case onAutocomplete env of
               None \<Rightarrow> []
             | Some lookup \<Rightarrow> first_offer (lookup (buffer ?new) (arrays ?new)))"
    if "\<not> paused st"
    using that assms by (intro preview_suffix) simp_all
  then show ?thesis using h by (simp cong: option.case_cong)
qed

theorem accept_suggestion_witness:
  "name (named_key ''right'') = Some ''right''
   \<and> cursor ((sample_state ''ab'' 2)\<lparr>suffix := ''foo''\<rparr>)
       = int (length (buffer ((sample_state ''ab'' 2)\<lparr>suffix := ''foo''\<rparr>)))
   \<and> suffix ((sample_state ''ab'' 2)\<lparr>suffix := ''foo''\<rparr>) \<noteq> []
   \<and> \<not> paused ((sample_state ''ab'' 2)\<lparr>suffix := ''foo''\<rparr>)
   \<and> (\<exists>st'. handler echo_env [] (named_key ''right'') ((sample_state ''ab'' 2)\<lparr>suffix := ''foo''\<rparr>)
               = Inr (Continue, st')
         \<and> buffer st' = ''abfoo'' \<and> cursor st' = 5 \<and> suffix st' = [])"
proof -
  let ?st = "(sample_state ''ab'' 2)\<lparr>suffix := ''foo''\<rparr>"
  have a: "name (named_key ''right'') = Some ''right''" by (simp add: named_key_def)
  have b: "cursor ?st = int (length (buffer ?st))" by (simp add: sample_state_def)
  have c: "suffix ?st \<noteq> []" by simp
  have d: "\<not> paused ?st" by (simp add: sample_state_def)
  obtain st' where "handler echo_env [] (named_key ''right'') ?st = Inr (Continue, st')"
    "buffer st' = buffer ?st @ suffix ?st" "cursor st' = cursor ?st + int (length (suffix ?st))"
    "\<not> paused ?st \<longrightarrow> suffix st' = (case onAutocomplete echo_env of
                                None \<Rightarrow> []
                              | Some lookup \<Rightarrow>
                                  first_offer (lookup (buffer ?st @ suffix ?st) (arrays ?st)))"
    using accept_suggestion [OF a b c, of echo_env "[]"] by blast
  then show ?thesis
    using a b c d by (intro conjI exI [of _ st']) (simp_all add: sample_state_def echo_env_def)
qed

text \<open>
  A lookup that offers \<open>foo\<close> for every buffer: after \<open>a\<close> is typed the suggestion \<open>foo\<close> is
  shown, and after \<open>right\<close> the buffer is \<open>afoo\<close> and the suggestion is \<open>foo\<close> again.
\<close>

theorem new_suggestion_counterexample:
  "handler foo_env ''a'' text_key IO_new = Inr (Continue, typed_a)
   \<and> cursor typed_a = int (length (buffer typed_a)) \<and> suffix typed_a = ''foo''
   \<and> handler foo_env [] (named_key ''right'') typed_a = Inr (Continue, key_right foo_env typed_a)
   \<and> buffer (key_right foo_env typed_a) = ''afoo''
   \<and> cursor (key_right foo_env typed_a) = 4
   \<and> suffix (key_right foo_env typed_a) = ''foo''"
  by (simp add: typed_a_def eval_defs)

subsection \<open>Cycling with tab\<close>

lemma handler_tab:
  "name k = Some ''tab'' \<Longrightarrow>
     handler env s k st = Inr (Continue, autocomplete env (st\<lparr>closeOnThisOne := False\<rparr>))"
  by (simp add: handler_def dispatch_def)

text \<open>
  Claim C7, as amended. When no completion queue is present, the editor is not paused,
  the cursor is at the end of the buffer and the lookup, each time it is asked about the
  buffer, hands out an array that then holds \<open>["abc", "abd"]\<close> (a new array, or a kept one
  filled again), four presses of tab show \<open>abc\<close>, then \<open>abd\<close>, then no suggestion (the queue
  is \<open>undefined\<close> again), then ask the lookup again and show \<open>abc\<close>. Buffer and cursor are the
  same after every press, and \<open>addSuffix\<close> never changes them.
\<close>

theorem tab_cycle:
  assumes "name k = Some ''tab''" and "onAutocomplete env = Some lookup"
    and "\<forall>h. \<exists>r h'. lookup (buffer st) h = (Some r, h') \<and> h' r = [''abc'', ''abd'']"
    and "completionList st = None" and "\<not> paused st"
    and "cursor st = int (length (buffer st))"
  shows "\<exists>st1 st2 st3 st4.
           handler env s k st = Inr (Continue, st1) \<and> suffix st1 = ''abc''
           \<and> trace st1 = trace st @ [Lookup (buffer st), ClearScreenDown, WriteGrey ''abc'',
                                       CursorTo (cursor st + int (length (prefix st)))]
           \<and> handler env s k st1 = Inr (Continue, st2) \<and> suffix st2 = ''abd''
           \<and> trace st2 = trace st1 @ [ClearScreenDown, WriteGrey ''abd'',
                                        CursorTo (cursor st + int (length (prefix st)))]
           \<and> handler env s k st2 = Inr (Continue, st3) \<and> suffix st3 = []
           \<and> completionList st3 = None
           \<and> handler env s k st3 = Inr (Continue, st4) \<and> suffix st4 = ''abc''
           \<and> trace st4 = trace st3 @ [Lookup (buffer st), ClearScreenDown, WriteGrey ''abc'',
                                        CursorTo (cursor st + int (length (prefix st)))]
           \<and> buffer st1 = buffer st \<and> cursor st1 = cursor st
           \<and> buffer st2 = buffer st \<and> cursor st2 = cursor st
           \<and> buffer st3 = buffer st \<and> cursor st3 = cursor st
           \<and> buffer st4 = buffer st \<and> cursor st4 = cursor st
           \<and> buffer (addSuffix c t) = buffer t \<and> cursor (addSuffix c t) = cursor t"
proof -
  let ?col = "cursor st + int (length (prefix st))"
  let ?show_abc = "[Lookup (buffer st), ClearScreenDown, WriteGrey ''abc'', CursorTo ?col]"
  obtain r1 h1 where ask1: "lookup (buffer st) (arrays st) = (Some r1, h1)"
    and full1: "h1 r1 = [''abc'', ''abd'']"
    using assms(3) by blast
  let ?st1 = "st\<lparr>closeOnThisOne := False, completionList := Some r1, suffix := ''abc'',
                 trace := trace st @ ?show_abc, arrays := h1(r1 := [''abd''])\<rparr>"
  let ?st2 = "?st1\<lparr>suffix := ''abd'',
                 trace := trace ?st1 @ [ClearScreenDown, WriteGrey ''abd'', CursorTo ?col],
                 arrays := h1(r1 := [])\<rparr>"
  let ?st3 = "redraw env (?st2\<lparr>completionList := None\<rparr>)"
  have t1: "handler env s k st = Inr (Continue, ?st1)"
    using assms(1,2,4,5,6) ask1 full1
      autocomplete_query [of env lookup "st\<lparr>closeOnThisOne := False\<rparr>" r1 h1 "''abc''" "[''abd'']"]
    by (cases st) (simp add: handler_tab addSuffix_def emit_def)
  have t2: "handler env s k ?st1 = Inr (Continue, ?st2)"
    using assms(1,2,4,5,6) autocomplete_next [of env lookup ?st1 r1 "''abd''" "[]"]
    by (cases st) (simp add: handler_tab addSuffix_def emit_def)
  have t3: "handler env s k ?st2 = Inr (Continue, ?st3)"
    using assms(1,2,4,5,6) autocomplete_exhausted [of env lookup ?st2 r1]
    by (cases st) (simp add: handler_tab refresh_plain)
  have st3: "buffer ?st3 = buffer st" "cursor ?st3 = cursor st" "prefix ?st3 = prefix st"
    "\<not> paused ?st3" "\<not> closeOnThisOne ?st3"
    using assms(5) by (simp_all add: redraw_frame)
  obtain r4 h4 where ask4: "lookup (buffer st) (arrays ?st3) = (Some r4, h4)"
    and full4: "h4 r4 = [''abc'', ''abd'']"
    using assms(3) by blast
  let ?st4 = "?st3\<lparr>completionList := Some r4, suffix := ''abc'',
                 trace := trace ?st3 @ ?show_abc, arrays := h4(r4 := [''abd''])\<rparr>"
  have t4: "handler env s k ?st3 = Inr (Continue, ?st4)"
  proof -
    have "?st3\<lparr>closeOnThisOne := False\<rparr> = ?st3"
      using st3(5) by (cases ?st3) simp
    then have "handler env s k ?st3 = Inr (Continue, autocomplete env ?st3)"
      using assms(1) handler_tab [of k env s ?st3] by simp
    moreover have "autocomplete env ?st3
        = addSuffix ''abc'' ((emit [Lookup (buffer ?st3)] ?st3)
                               \<lparr>arrays := h4(r4 := [''abd'']), completionList := Some r4\<rparr>)"
      using assms(2) st3 ask4 full4 by (intro autocomplete_query [of env lookup]) simp_all
    ultimately show ?thesis
      using assms(6) st3 by (simp add: addSuffix_def emit_def)
  qed
  have "suffix ?st3 = []" "completionList ?st3 = None" by simp_all
  moreover have "buffer (addSuffix c t) = buffer t \<and> cursor (addSuffix c t) = cursor t"
    by (simp add: addSuffix_frame)
  ultimately show ?thesis
    using t1 t2 t3 t4 st3
    by (intro exI [of _ ?st1] exI [of _ ?st2] exI [of _ ?st3] exI [of _ ?st4]) simp
qed

theorem tab_cycle_witness:
  "name (named_key ''tab'') = Some ''tab'' \<and> onAutocomplete ab_env = Some ab_lookup
   \<and> (\<forall>h. \<exists>r h'. ab_lookup (buffer (sample_state ''ab'' 2)) h = (Some r, h')
                  \<and> h' r = [''abc'', ''abd''])
   \<and> completionList (sample_state ''ab'' 2) = None \<and> \<not> paused (sample_state ''ab'' 2)
   \<and> cursor (sample_state ''ab'' 2) = int (length (buffer (sample_state ''ab'' 2)))
   \<and> (\<exists>st1 st2 st3 st4.
         handler ab_env [] (named_key ''tab'') (sample_state ''ab'' 2) = Inr (Continue, st1)
         \<and> suffix st1 = ''abc''
         \<and> handler ab_env [] (named_key ''tab'') st1 = Inr (Continue, st2) \<and> suffix st2 = ''abd''
         \<and> handler ab_env [] (named_key ''tab'') st2 = Inr (Continue, st3) \<and> suffix st3 = []
         \<and> completionList st3 = None
         \<and> handler ab_env [] (named_key ''tab'') st3 = Inr (Continue, st4) \<and> suffix st4 = ''abc''
         \<and> buffer st4 = ''ab'' \<and> cursor st4 = 2)"
proof -
  let ?st = "sample_state ''ab'' 2"
  have a: "name (named_key ''tab'') = Some ''tab''" by (simp add: named_key_def)
  have b: "onAutocomplete ab_env = Some ab_lookup" by (simp add: ab_env_def)
  have c: "\<forall>h. \<exists>r h'. ab_lookup (buffer ?st) h = (Some r, h') \<and> h' r = [''abc'', ''abd'']"
    by (simp add: ab_lookup_def sample_state_def)
  have d: "completionList ?st = None" by (simp add: sample_state_def)
  have e: "\<not> paused ?st" by (simp add: sample_state_def)
  have f: "cursor ?st = int (length (buffer ?st))" by (simp add: sample_state_def)
  obtain st1 st2 st3 st4 where
    "handler ab_env [] (named_key ''tab'') ?st = Inr (Continue, st1)" "suffix st1 = ''abc''"
    "handler ab_env [] (named_key ''tab'') st1 = Inr (Continue, st2)" "suffix st2 = ''abd''"
    "handler ab_env [] (named_key ''tab'') st2 = Inr (Continue, st3)" "suffix st3 = []"
    "completionList st3 = None"
    "handler ab_env [] (named_key ''tab'') st3 = Inr (Continue, st4)" "suffix st4 = ''abc''"
    "buffer st4 = buffer ?st" "cursor st4 = cursor ?st"
    using tab_cycle [OF a b c d e f, of "[]"] by blast
  then show ?thesis
    using a b c d e f
    by (intro conjI exI [of _ st1] exI [of _ st2] exI [of _ st3] exI [of _ st4])
       (simp_all add: sample_state_def)
qed

text \<open>
  Typing \<open>ab\<close> already shows \<open>abc\<close>, by the preview of \<open>refresh\<close>, and leaves \<open>abd\<close> queued:
  the first tab after it shows \<open>abd\<close>.
\<close>

theorem preview_shifts_cycle_counterexample:
  "handler ab_env ''a'' text_key IO_new = Inr (Continue, key_default ab_env ''a'' IO_new)
   \<and> handler ab_env ''b'' text_key (key_default ab_env ''a'' IO_new) = Inr (Continue, typed_ab)
   \<and> buffer typed_ab = ''ab'' \<and> cursor typed_ab = 2 \<and> \<not> paused typed_ab
   \<and> ab_lookup (buffer typed_ab) (arrays typed_ab)
       = (Some 0, (arrays typed_ab)(0 := [''abc'', ''abd'']))
   \<and> suffix typed_ab = ''abc'' \<and> completionList typed_ab = Some 0
   \<and> arrays typed_ab 0 = [''abd'']
   \<and> handler ab_env [] (named_key ''tab'') typed_ab = Inr (Continue, autocomplete ab_env typed_ab)
   \<and> suffix (autocomplete ab_env typed_ab) = ''abd''"
  by (simp add: typed_ab_def eval_defs)

text \<open>
  The array is shared with the caller: a lookup that hands out the one array it keeps,
  without filling it again, finds it emptied when it is asked the second time. After
  \<open>abc\<close>, \<open>abd\<close> and no suggestion, the fourth tab shows nothing.
\<close>

lemma stored_array_drained:
  "handler stored_env [] (named_key ''tab'') stored_start = Inr (Continue, stored_tab1)
   \<and> suffix stored_tab1 = ''abc''
   \<and> handler stored_env [] (named_key ''tab'') stored_tab1 = Inr (Continue, stored_tab2)
   \<and> suffix stored_tab2 = ''abd''
   \<and> handler stored_env [] (named_key ''tab'') stored_tab2 = Inr (Continue, stored_tab3)
   \<and> suffix stored_tab3 = [] \<and> completionList stored_tab3 = None
   \<and> suffix (autocomplete stored_env stored_tab3) = []
   \<and> handler stored_env [] (named_key ''tab'') stored_tab3
       = Inr (Continue, autocomplete stored_env stored_tab3)"
  by (simp add: stored_start_def stored_tab1_def stored_tab2_def stored_tab3_def eval_defs)

subsection \<open>Moves the cursor cannot make\<close>

lemma handler_left:
  "name k = Some ''left'' \<Longrightarrow>
     handler env s k st = Inr (Continue, moveCursor env (- 1) (st\<lparr>closeOnThisOne := False\<rparr>))"
  by (simp add: handler_def dispatch_def)

text \<open>
  Claim C8, as amended. \<open>moveCursor\<close> returns the state as it is, with nothing written,
  when the move would take the cursor outside \<open>[0, length buffer]\<close>. For the key events that
  ask for such a move (\<open>left\<close> at cursor 0, \<open>right\<close> at the end of the buffer with no
  suggestion) nothing is written and every field of the state is as before, except that
  \<open>closeOnThisOne\<close> is unset, as it is by every key other than ctrl-c and meta-c.
\<close>

theorem rejected_move:
  "(cursor st + n < 0 \<or> cursor st + n > int (length (buffer st)) \<longrightarrow> moveCursor env n st = st)
   \<and> (name k = Some ''left'' \<and> (cursor st - 1 < 0 \<or> cursor st - 1 > int (length (buffer st)))
        \<longrightarrow> handler env s k st = Inr (Continue, st\<lparr>closeOnThisOne := False\<rparr>))
   \<and> (name k = Some ''right'' \<and> suffix st = []
         \<and> (cursor st + 1 < 0 \<or> cursor st + 1 > int (length (buffer st)))
        \<longrightarrow> handler env s k st = Inr (Continue, st\<lparr>closeOnThisOne := False\<rparr>))"
  by (auto simp: handler_left handler_right key_right_def moveCursor_def)

theorem rejected_move_witness:
  "(cursor (sample_state ''ab'' 2) + 1 < 0
      \<or> cursor (sample_state ''ab'' 2) + 1 > int (length (buffer (sample_state ''ab'' 2))))
   \<and> moveCursor echo_env 1 (sample_state ''ab'' 2) = sample_state ''ab'' 2
   \<and> name (named_key ''left'') = Some ''left''
   \<and> (cursor armed_state - 1 < 0 \<or> cursor armed_state - 1 > int (length (buffer armed_state)))
   \<and> handler echo_env [] (named_key ''left'') armed_state
       = Inr (Continue, armed_state\<lparr>closeOnThisOne := False\<rparr>)
   \<and> name (named_key ''right'') = Some ''right'' \<and> suffix armed_state = []
   \<and> (cursor armed_state + 1 < 0 \<or> cursor armed_state + 1 > int (length (buffer armed_state)))
   \<and> handler echo_env [] (named_key ''right'') armed_state
       = Inr (Continue, armed_state\<lparr>closeOnThisOne := False\<rparr>)"
  using rejected_move [of "sample_state ''ab'' 2" 1 echo_env "named_key ''left''" "[]"]
    rejected_move [of armed_state 1 echo_env "named_key ''left''" "[]"]
    rejected_move [of armed_state 1 echo_env "named_key ''right''" "[]"]
  by (simp add: sample_state_def armed_state_def named_key_def IO_new_def unpause_def emit_def)

text \<open>
  After one ctrl-c the cursor is at 0 and \<open>closeOnThisOne\<close> is set; \<open>left\<close> then changes the
  state, it unsets \<open>closeOnThisOne\<close>.
\<close>

theorem left_disarms_counterexample:
  "handler echo_env [] (ctrl_key ''c'') IO_new = Inr (Continue, armed_state)
   \<and> cursor armed_state = 0
   \<and> handler echo_env [] (named_key ''left'') armed_state
       = Inr (Continue, armed_state\<lparr>closeOnThisOne := False\<rparr>)
   \<and> armed_state\<lparr>closeOnThisOne := False\<rparr> \<noteq> armed_state"
proof -
  have "closeOnThisOne (armed_state\<lparr>closeOnThisOne := False\<rparr>) \<noteq> closeOnThisOne armed_state"
    by (simp add: armed_state_def)
  then have "armed_state\<lparr>closeOnThisOne := False\<rparr> \<noteq> armed_state" by metis
  then show ?thesis by (simp add: armed_state_def eval_defs)
qed

subsection \<open>Tab without a lookup\<close>

text \<open>
  Claim C9, as amended. When no \<open>onAutocomplete\<close> was given to the constructor, a tab key
  event calls no lookup, writes nothing and changes no field of the state, except that
  \<open>closeOnThisOne\<close> is unset, as it is by every key other than ctrl-c and meta-c.
\<close>

theorem tab_without_lookup:
  assumes "onAutocomplete env = None" and "name k = Some ''tab''"
  shows "handler env s k st = Inr (Continue, st\<lparr>closeOnThisOne := False\<rparr>)"
  using assms by (simp add: handler_tab autocomplete_disabled)

theorem tab_without_lookup_witness:
  "onAutocomplete echo_env = None \<and> name (named_key ''tab'') = Some ''tab''
   \<and> handler echo_env [] (named_key ''tab'') (sample_state ''ab'' 2)
       = Inr (Continue, sample_state ''ab'' 2)"
  using tab_without_lookup [of echo_env "named_key ''tab''" "[]" "sample_state ''ab'' 2"]
  by (simp add: echo_env_def named_key_def sample_state_def)

text \<open>
  After one ctrl-c, tab changes the state although there is no lookup: it unsets
  \<open>closeOnThisOne\<close>.
\<close>

theorem tab_disarms_counterexample:
  "onAutocomplete echo_env = None
   \<and> handler echo_env [] (ctrl_key ''c'') IO_new = Inr (Continue, armed_state)
   \<and> handler echo_env [] (named_key ''tab'') armed_state
       = Inr (Continue, armed_state\<lparr>closeOnThisOne := False\<rparr>)
   \<and> armed_state\<lparr>closeOnThisOne := False\<rparr> \<noteq> armed_state"
proof -
  have "closeOnThisOne (armed_state\<lparr>closeOnThisOne := False\<rparr>) \<noteq> closeOnThisOne armed_state"
    by (simp add: armed_state_def)
  then have "armed_state\<lparr>closeOnThisOne := False\<rparr> \<noteq> armed_state" by metis
  then show ?thesis by (simp add: armed_state_def eval_defs)
qed

subsection \<open>Cycling consumes the candidate\<close>

text \<open>Without a lookup there is never a completion queue.\<close>

lemma no_lookup_refresh:
  "onAutocomplete env = None \<Longrightarrow> completionList st = None \<Longrightarrow>
     completionList (refresh env c st) = None"
  by (simp add: refresh.simps autocomplete_disabled)

lemma no_lookup_appendToBuffer:
  "onAutocomplete env = None \<Longrightarrow> completionList st = None \<Longrightarrow>
     completionList (appendToBuffer env l st) = None"
  by (simp add: appendToBuffer_def no_lookup_refresh)

lemma no_lookup_moveCursor:
  "onAutocomplete env = None \<Longrightarrow> completionList st = None \<Longrightarrow>
     completionList (moveCursor env n st) = None"
  by (simp add: moveCursor_def no_lookup_refresh)

lemma no_lookup_submit:
  "onAutocomplete env = None \<Longrightarrow> completionList st = None \<Longrightarrow>
     completionList (submit env st) = None"
  by (simp add: submit_def Let_def pause_def unpause_def emit_def no_lookup_refresh)

lemma no_lookup_lines_loop:
  "onAutocomplete env = None \<Longrightarrow> completionList st = None \<Longrightarrow>
     completionList (lines_loop env i ls st) = None"
  by (induction ls arbitrary: i st) (simp_all add: no_lookup_appendToBuffer no_lookup_submit)

lemma no_lookup_dispatch:
  "onAutocomplete env = None \<Longrightarrow> completionList st = None \<Longrightarrow>
     dispatch env s k st = Inr (r, st') \<Longrightarrow> completionList st' = None"
  by (auto simp: dispatch_def key_up_def key_down_def key_right_def key_backspace_def
        key_default_def no_lookup_refresh no_lookup_moveCursor no_lookup_lines_loop
        autocomplete_disabled split: if_splits option.splits)

lemma no_lookup_handler:
  "onAutocomplete env = None \<Longrightarrow> completionList st = None \<Longrightarrow>
     handler env s k st = Inr (r, st') \<Longrightarrow> completionList st' = None"
  using no_lookup_dispatch [of env "st\<lparr>closeOnThisOne := False\<rparr>" s k r st']
  by (auto simp: handler_def emit_def split: if_splits)

lemma queue_needs_lookup:
  "reachable env st \<Longrightarrow> onAutocomplete env = None \<Longrightarrow> completionList st = None"
proof (induction rule: reachable.induct)
  case (start h)
  show ?case by (simp add: IO_new_def unpause_def emit_def)
next
  case (step st s k st')
  then show ?case using no_lookup_handler [of env st s k Continue st'] by simp
qed

text \<open>
  Claim C10. With a lookup supplied and a non-empty completion queue, \<open>autocomplete\<close> takes
  the first candidate off the queue and only then tries to show it; when the editor is
  paused or the cursor is not at the end of the buffer, the candidate is gone from the
  queue and nothing else has changed: no suggestion is set and nothing is written.
\<close>

theorem cycle_consumes_candidate:
  assumes "onAutocomplete env = Some lookup" and "completionList st = Some r"
    and "arrays st r = c # cs"
  shows "autocomplete env st = addSuffix c (st\<lparr>arrays := (arrays st)(r := cs)\<rparr>)
         \<and> completionList (autocomplete env st) = Some r
         \<and> arrays (autocomplete env st) r = cs
         \<and> (paused st \<or> cursor st \<noteq> int (length (buffer st))
              \<longrightarrow> autocomplete env st = st\<lparr>arrays := (arrays st)(r := cs)\<rparr>)"
  using assms by (auto simp: autocomplete_next addSuffix_def emit_def)

theorem cycle_consumes_candidate_witness:
  "onAutocomplete ab_env = Some ab_lookup
   \<and> completionList ((sample_state ''ab'' 1)
         \<lparr>completionList := Some 0, arrays := (\<lambda>r. [])(0 := [''abc'', ''abd''])\<rparr>) = Some 0
   \<and> arrays ((sample_state ''ab'' 1)
         \<lparr>completionList := Some 0, arrays := (\<lambda>r. [])(0 := [''abc'', ''abd''])\<rparr>) 0
       = ''abc'' # [''abd'']
   \<and> (paused ((sample_state ''ab'' 1)
         \<lparr>completionList := Some 0, arrays := (\<lambda>r. [])(0 := [''abc'', ''abd''])\<rparr>)
        \<or> cursor ((sample_state ''ab'' 1)
             \<lparr>completionList := Some 0, arrays := (\<lambda>r. [])(0 := [''abc'', ''abd''])\<rparr>)
            \<noteq> int (length (buffer ((sample_state ''ab'' 1)
                \<lparr>completionList := Some 0, arrays := (\<lambda>r. [])(0 := [''abc'', ''abd''])\<rparr>))))
   \<and> autocomplete ab_env ((sample_state ''ab'' 1)
         \<lparr>completionList := Some 0, arrays := (\<lambda>r. [])(0 := [''abc'', ''abd''])\<rparr>)
       = (sample_state ''ab'' 1)\<lparr>completionList := Some 0, arrays := (\<lambda>r. [])(0 := [''abd''])\<rparr>"
  using cycle_consumes_candidate [of ab_env ab_lookup
      "(sample_state ''ab'' 1)
         \<lparr>completionList := Some 0, arrays := (\<lambda>r. [])(0 := [''abc'', ''abd''])\<rparr>" 0
      "''abc''" "[''abd'']"]
  by (simp add: ab_env_def sample_state_def addSuffix_def)

subsection \<open>Down at the newest history entry\<close>

lemma browsing_newest_reached:
  "\<exists>st. run echo_env [(''a'', text_key), ([CHR 0x0D], named_key ''return''),
             ([], named_key ''up'')] IO_new = Inr (Continue, st)
        \<and> buffer st = buffer browsing_newest \<and> cursor st = cursor browsing_newest
        \<and> prefix st = prefix browsing_newest \<and> suffix st = suffix browsing_newest
        \<and> paused st = paused browsing_newest
        \<and> completionList st = completionList browsing_newest
        \<and> history st = history browsing_newest
        \<and> history_index st = history_index browsing_newest
        \<and> closeOnThisOne st = closeOnThisOne browsing_newest"
  by (simp add: browsing_newest_def eval_defs)

lemma down_keeps_index:
  assumes "name k = Some ''down''" and "history_index st \<le> 0"
  shows "\<exists>st'. handler env s k st = Inr (Continue, st') \<and> buffer st' = [] \<and> cursor st' = 0
           \<and> history_index st' = history_index st"
  using assms by (simp add: handler_def dispatch_def key_down_def)

lemma down_browses_back:
  assumes "name k = Some ''down''" and "0 < history_index st"
    and "history_index st - 1 < int (length (history st))"
  shows "handler env s k st
           = Inr (Continue, refresh env True
               (st\<lparr>closeOnThisOne := False, history_index := history_index st - 1,
                    buffer := history st ! nat (history_index st - 1),
                    cursor := int (length (history st ! nat (history_index st - 1)))\<rparr>))"
  using assms by (simp add: handler_def dispatch_def key_down_def history_at_def)

text \<open>
  Claim C1. The code run on the state in which the newest history entry is shown
  (\<open>history.index = 0\<close>): \<open>down\<close> empties the buffer and puts the cursor at 0, and
  \<open>history.index\<close> is still 0 where the claim has \<open>-1\<close>. A following \<open>up\<close> then finds the index
  at the last entry and does nothing, so the entry cannot be recalled.
\<close>

theorem down_keeps_history_index:
  "history_index browsing_newest = 0
   \<and> handler echo_env [] (named_key ''down'') browsing_newest
       = Inr (Continue, refresh echo_env True (browsing_newest\<lparr>buffer := [], cursor := 0\<rparr>))
   \<and> buffer (refresh echo_env True (browsing_newest\<lparr>buffer := [], cursor := 0\<rparr>)) = []
   \<and> cursor (refresh echo_env True (browsing_newest\<lparr>buffer := [], cursor := 0\<rparr>)) = 0
   \<and> history_index (refresh echo_env True (browsing_newest\<lparr>buffer := [], cursor := 0\<rparr>)) = 0
   \<and> handler echo_env [] (named_key ''up'')
         (refresh echo_env True (browsing_newest\<lparr>buffer := [], cursor := 0\<rparr>))
       = Inr (Continue, refresh echo_env True (browsing_newest\<lparr>buffer := [], cursor := 0\<rparr>))"
  by (simp add: browsing_newest_def eval_defs)

end
